theory Spec2Isabelle
  imports Complex_Main "HOL-Library.Word" "HOL-Library.Multiset"
begin

section \<open>Python values\<close>

text \<open>
  The measurement scripts compute on Python floats. They are modelled by the real numbers:
  rounding is left out, everything else (the order of the operations, the branches, the
  exceptions) is kept. The rate searches only halve and compare numbers that floats hold
  exactly; for the percentiles, where rounding can decide an order, there is a second model
  that rounds every operation. Exceptions are values of \<open>py_error\<close>, and a computation
  that may raise returns \<open>py_error + 'a\<close>.
\<close>

datatype py_error = IndexError | ZeroDivisionError | StatisticsError | ValueError

definition bind_err :: "py_error + 'a \<Rightarrow> ('a \<Rightarrow> py_error + 'b) \<Rightarrow> py_error + 'b" where
  "bind_err m f = (case m of Inl e \<Rightarrow> Inl e | Inr x \<Rightarrow> f x)"

text \<open>\<^verbatim>\<open>int(x)\<close> on a float truncates towards zero.\<close>

definition py_int :: "real \<Rightarrow> int" where
  "py_int x = (if 0 \<le> x then \<lfloor>x\<rfloor> else \<lceil>x\<rceil>)"

text \<open>\<^verbatim>\<open>xs[i]\<close>: a negative index counts from the end, an index out of range raises.\<close>

definition py_get :: "'a list \<Rightarrow> int \<Rightarrow> py_error + 'a" where
  "py_get xs i =
     (if 0 \<le> i \<and> i < int (length xs) then Inr (xs ! nat i)
      else if i < 0 \<and> - int (length xs) \<le> i then Inr (xs ! nat (int (length xs) + i))
      else Inl IndexError)"

text \<open>\<^verbatim>\<open>a / b\<close> on floats raises when the divisor is zero.\<close>

definition py_div :: "real \<Rightarrow> real \<Rightarrow> py_error + real" where
  "py_div a b = (if b = 0 then Inl ZeroDivisionError else Inr (a / b))"

text \<open>The built-in \<^verbatim>\<open>min\<close> and \<^verbatim>\<open>max\<close> of a list raise \<^verbatim>\<open>ValueError\<close> on the empty list.\<close>

definition py_min :: "real list \<Rightarrow> py_error + real" where
  "py_min xs = (case xs of [] \<Rightarrow> Inl ValueError | x # ys \<Rightarrow> Inr (fold min ys x))"

definition py_max :: "real list \<Rightarrow> py_error + real" where
  "py_max xs = (case xs of [] \<Rightarrow> Inl ValueError | x # ys \<Rightarrow> Inr (fold max ys x))"

section \<open>Percentiles\<close>

text \<open>
  \<^verbatim>\<open>percentile(data, percent)\<close> is written three times with the same body: the method
  \<^verbatim>\<open>RFC2544Test.percentile\<close>, the local function of \<^verbatim>\<open>calculate_stats\<close> and the local
  function of \<^verbatim>\<open>test_latency_icmp\<close> in the latency-only script.
  \<^verbatim>\<open>
      sorted_data = sorted(data)
      index = (len(sorted_data) - 1) * percent / 100
      floor = int(index)
      ceil = floor + 1
      if ceil >= len(sorted_data):
          return sorted_data[floor]
      fraction = index - floor
      return sorted_data[floor] * (1 - fraction) + sorted_data[ceil] * fraction
  \<close>
\<close>

definition percentile :: "real list \<Rightarrow> real \<Rightarrow> py_error + real" where
  "percentile data percent =
     (let sorted_data = sort data;
          index = of_int (int (length sorted_data) - 1) * percent / 100;
          floor_i = py_int index;
          ceil_i = floor_i + 1
      in if ceil_i \<ge> int (length sorted_data) then py_get sorted_data floor_i
         else let fraction = index - of_int floor_i
              in bind_err (py_get sorted_data floor_i) (\<lambda>lo.
                 bind_err (py_get sorted_data ceil_i) (\<lambda>hi.
                 Inr (lo * (1 - fraction) + hi * fraction))))"

text \<open>
  The percentile as the specification words it: sort ascending, \<open>index = (n-1)*p/100\<close>,
  \<open>floor = \<lfloor>index\<rfloor>\<close>, \<open>ceil = floor+1\<close>, the element at \<open>floor\<close> when \<open>ceil \<ge> n\<close>, the
  linear interpolation otherwise.
\<close>

definition percentile_spec :: "real list \<Rightarrow> real \<Rightarrow> real" where
  "percentile_spec samples p =
     (let s = sort samples;
          n = length s;
          index = (real n - 1) * p / 100;
          fl = nat \<lfloor>index\<rfloor>;
          cl = fl + 1;
          frac = index - real fl
      in if cl \<ge> n then s ! fl else s ! fl * (1 - frac) + s ! cl * frac)"

text \<open>The interpolation at a position \<open>x\<close> of a sorted list, on its own.\<close>

definition interpolate :: "real list \<Rightarrow> real \<Rightarrow> real" where
  "interpolate s x =
     (let fl = nat \<lfloor>x\<rfloor>; frac = x - real fl
      in if fl + 1 \<ge> length s then s ! fl else s ! fl * (1 - frac) + s ! (fl + 1) * frac)"

section \<open>Percentiles in double precision\<close>

text \<open>
  Where the rounding of Python's floats decides a property, the arithmetic is modelled
  as it is carried out: a float is the rational number it stands for, and every operation
  returns its exact result rounded to the nearest number with a significand of 53 bits,
  a tie going to the even significand. Overflow and subnormal numbers are left out.
\<close>

definition round_half_even :: "rat \<Rightarrow> int" where
  "round_half_even q =
     (let f = \<lfloor>q\<rfloor>; d = q - of_int f
      in if d < 1 / 2 then f else if 1 / 2 < d then f + 1 else if even f then f else f + 1)"

text \<open>The exponent \<open>e\<close> with \<open>2 ^ e \<le> x < 2 ^ (e + 1)\<close>, for a positive \<open>x\<close>.\<close>

fun binade :: "nat \<Rightarrow> rat \<Rightarrow> int" where
  "binade 0 x = 0"
| "binade (Suc fuel) x =
     (if 2 \<le> x then binade fuel (x / 2) + 1
      else if x < 1 then binade fuel (x * 2) - 1
      else 0)"

definition pow2 :: "int \<Rightarrow> rat" where
  "pow2 e = (if 0 \<le> e then 2 ^ nat e else 1 / 2 ^ nat (- e))"

definition f64 :: "rat \<Rightarrow> rat" where
  "f64 x =
     (if x = 0 then 0
      else let a = \<bar>x\<bar>; ulp = pow2 (binade 1100 a - 52)
           in sgn x * of_int (round_half_even (a / ulp)) * ulp)"

text \<open>
  The argument \<^verbatim>\<open>percent\<close> is an \<^verbatim>\<open>int\<close> in the calls with 50, 90, 95 and 99 and a
  \<^verbatim>\<open>float\<close> in the call with 99.9: the product with \<^verbatim>\<open>len(sorted_data) - 1\<close> is exact
  in the first case and rounded in the second.
\<close>

datatype py_number = PyInt int | PyFloat rat

definition py_int_rat :: "rat \<Rightarrow> int" where
  "py_int_rat x = (if 0 \<le> x then \<lfloor>x\<rfloor> else \<lceil>x\<rceil>)"

definition percentile_f64 :: "rat list \<Rightarrow> py_number \<Rightarrow> py_error + rat" where
  "percentile_f64 data percent =
     (let sorted_data = sort data;
          n1 = int (length sorted_data) - 1;
          index = (case percent of
                     PyInt k \<Rightarrow> f64 (of_int (n1 * k) / 100)
                   | PyFloat p \<Rightarrow> f64 (f64 (of_int n1 * p) / 100));
          floor_i = py_int_rat index;
          ceil_i = floor_i + 1
      in if ceil_i \<ge> int (length sorted_data) then py_get sorted_data floor_i
         else let fraction = f64 (index - of_int floor_i)
              in bind_err (py_get sorted_data floor_i) (\<lambda>lo.
                 bind_err (py_get sorted_data ceil_i) (\<lambda>hi.
                 Inr (f64 (f64 (lo * f64 (1 - fraction)) + f64 (hi * fraction))))))"

text \<open>The float that the literal \<^verbatim>\<open>1.813\<close> stands for.\<close>

definition v1813 :: rat where
  "v1813 = 8165026124422709 / 4503599627370496"

section \<open>The statistics module\<close>

text \<open>
  \<^verbatim>\<open>statistics.mean\<close>, \<^verbatim>\<open>statistics.median\<close> and \<^verbatim>\<open>statistics.stdev\<close> belong to Python's
  standard library. \<^verbatim>\<open>mean\<close> and \<^verbatim>\<open>median\<close> raise \<^verbatim>\<open>StatisticsError\<close> on an empty
  list, \<^verbatim>\<open>stdev\<close> (the square root of the sample variance, denominator \<open>n - 1\<close>) raises it
  on fewer than two values.
\<close>

definition py_mean :: "real list \<Rightarrow> py_error + real" where
  "py_mean xs = (if xs = [] then Inl StatisticsError else Inr (sum_list xs / real (length xs)))"

definition py_median :: "real list \<Rightarrow> py_error + real" where
  "py_median xs =
     (let data = sort xs; n = length data
      in if n = 0 then Inl StatisticsError
         else if n mod 2 = 1 then Inr (data ! (n div 2))
         else let i = n div 2 in Inr ((data ! (i - 1) + data ! i) / 2))"

definition py_stdev :: "real list \<Rightarrow> py_error + real" where
  "py_stdev xs =
     (if length xs < 2 then Inl StatisticsError
      else let m = sum_list xs / real (length xs)
           in Inr (sqrt (sum_list (map (\<lambda>x. (x - m)\<^sup>2) xs) / (real (length xs) - 1))))"

section \<open>Latency statistics\<close>

record latency_stats =
  st_count :: nat
  st_min :: real
  st_max :: real
  st_avg :: real
  st_median :: real
  st_stddev :: real
  st_p50 :: real
  st_p90 :: real
  st_p95 :: real
  st_p99 :: real
  st_p99_9 :: real
  st_jitter :: real

record icmp_stats = latency_stats +
  frame_size :: int

record path_stats = latency_stats +
  label :: string

text \<open>
  \<^verbatim>\<open>RFC2544Test.test_latency_icmp\<close>, from the point where the ping output has been parsed
  into the list \<^verbatim>\<open>latencies\<close>: \<^verbatim>\<open>None\<close> for no sample, the dictionary of statistics
  otherwise. The entries of the dictionary are evaluated in the order they are written.
  \<^verbatim>\<open>
      "stddev": statistics.stdev(latencies) if len(latencies) > 1 else 0,
      "p50": statistics.median(latencies),
      "p90": self.percentile(latencies, 90),
  \<close>
\<close>

definition test_latency_icmp :: "int \<Rightarrow> real list \<Rightarrow> py_error + icmp_stats option" where
  "test_latency_icmp fs latencies =
     (if latencies = [] then Inr None
      else
        bind_err (py_min latencies) (\<lambda>v_min.
        bind_err (py_max latencies) (\<lambda>v_max.
        bind_err (py_mean latencies) (\<lambda>v_avg.
        bind_err (py_median latencies) (\<lambda>v_median.
        bind_err (if length latencies > 1 then py_stdev latencies else Inr 0) (\<lambda>v_stddev.
        bind_err (py_median latencies) (\<lambda>v_p50.
        bind_err (percentile latencies 90) (\<lambda>v_p90.
        bind_err (percentile latencies 95) (\<lambda>v_p95.
        bind_err (percentile latencies 99) (\<lambda>v_p99.
        bind_err (percentile latencies (999 / 10)) (\<lambda>v_p99_9.
        bind_err (if length latencies > 1 then py_stdev latencies else Inr 0) (\<lambda>v_jitter.
        Inr (Some \<lparr>st_count = length latencies, st_min = v_min, st_max = v_max,
          st_avg = v_avg, st_median = v_median, st_stddev = v_stddev, st_p50 = v_p50,
          st_p90 = v_p90, st_p95 = v_p95, st_p99 = v_p99, st_p99_9 = v_p99_9,
          st_jitter = v_jitter, frame_size = fs\<rparr>)))))))))))))"

text \<open>
  \<^verbatim>\<open>calculate_stats(latencies, label)\<close> of the dual-path comparison script: the same
  dictionary, with \<^verbatim>\<open>statistics.stdev\<close> called on the list as it is and \<^verbatim>\<open>p50\<close> taken
  from \<^verbatim>\<open>percentile\<close>.
  \<^verbatim>\<open>
      "stddev": statistics.stdev(latencies),
      "p50": percentile(latencies, 50),
      ...
      "jitter": statistics.stdev(latencies)
  \<close>
\<close>

definition calculate_stats :: "real list \<Rightarrow> string \<Rightarrow> py_error + path_stats" where
  "calculate_stats latencies lbl =
     bind_err (py_min latencies) (\<lambda>v_min.
     bind_err (py_max latencies) (\<lambda>v_max.
     bind_err (py_mean latencies) (\<lambda>v_avg.
     bind_err (py_median latencies) (\<lambda>v_median.
     bind_err (py_stdev latencies) (\<lambda>v_stddev.
     bind_err (percentile latencies 50) (\<lambda>v_p50.
     bind_err (percentile latencies 90) (\<lambda>v_p90.
     bind_err (percentile latencies 95) (\<lambda>v_p95.
     bind_err (percentile latencies 99) (\<lambda>v_p99.
     bind_err (percentile latencies (999 / 10)) (\<lambda>v_p99_9.
     bind_err (py_stdev latencies) (\<lambda>v_jitter.
     Inr \<lparr>st_count = length latencies, st_min = v_min, st_max = v_max,
       st_avg = v_avg, st_median = v_median, st_stddev = v_stddev, st_p50 = v_p50,
       st_p90 = v_p90, st_p95 = v_p95, st_p99 = v_p99, st_p99_9 = v_p99_9,
       st_jitter = v_jitter, label = lbl\<rparr>)))))))))))"

text \<open>The order the statistics are claimed to be in.\<close>

definition percentiles_ordered :: "'a latency_stats_scheme \<Rightarrow> bool" where
  "percentiles_ordered st \<longleftrightarrow>
     st_min st \<le> st_p50 st \<and> st_p50 st \<le> st_p90 st \<and> st_p90 st \<le> st_p95 st \<and>
     st_p95 st \<le> st_p99 st \<and> st_p99 st \<le> st_p99_9 st \<and> st_p99_9 st \<le> st_max st"

section \<open>Dual-path selection\<close>

text \<open>
  \<^verbatim>\<open>
  def calculate_frer_latencies(path1, path2):
      return [min(p1, p2) for p1, p2 in zip(path1, path2)]
  \<close>
  \<^verbatim>\<open>zip\<close> stops at the end of the shorter list.
\<close>

definition calculate_frer_latencies :: "real list \<Rightarrow> real list \<Rightarrow> real list" where
  "calculate_frer_latencies path1 path2 = map (\<lambda>(p1, p2). min p1 p2) (zip path1 path2)"

section \<open>Sequence analysis of a capture\<close>

text \<open>
  A captured packet, as far as \<^verbatim>\<open>analyze_pcap\<close> looks at it: the bytes of its \<^verbatim>\<open>Raw\<close>
  layer, if it has one.
\<close>

type_synonym packet = "8 word list option"

text \<open>
  \<^verbatim>\<open>struct.unpack("!HHI", b)\<close>: two big-endian 16-bit fields and one big-endian 32-bit
  field from exactly eight bytes; any other length raises.
\<close>

definition unpack_HHI :: "8 word list \<Rightarrow> (int \<times> int \<times> int) option" where
  "unpack_HHI b =
     (if length b = 8
      then Some (uint (b ! 0) * 256 + uint (b ! 1),
                 uint (b ! 2) * 256 + uint (b ! 3),
                 uint (b ! 4) * 16777216 + uint (b ! 5) * 65536 + uint (b ! 6) * 256 + uint (b ! 7))
      else None)"

text \<open>
  The guards around the body of the loop: the packet has a \<^verbatim>\<open>Raw\<close> layer, the payload has
  at least eight bytes and starts with \<^verbatim>\<open>f1 c1\<close>, and the unpacking does not raise.
  The result is \<open>(ethertype, stream_id, seq_num)\<close>.
\<close>

definition parse_tag :: "packet \<Rightarrow> (int \<times> int \<times> int) option" where
  "parse_tag pkt =
     (case pkt of
        None \<Rightarrow> None
      | Some payload \<Rightarrow>
          if length payload \<ge> 8 \<and> take 2 payload = [0xf1, 0xc1]
          then unpack_HHI (take 8 payload)
          else None)"

record seq_state =
  duplicates :: nat
  unique_seq :: "int set"
  out_of_order :: nat
  prev_seq :: int

definition seq_init :: seq_state where
  "seq_init = \<lparr>duplicates = 0, unique_seq = {}, out_of_order = 0, prev_seq = - 1\<rparr>"

text \<open>
  One round of \<^verbatim>\<open>for pkt in packets\<close>:
  \<^verbatim>\<open>
      ethertype, stream_id, seq_num = struct.unpack("!HHI", payload[0:8])
      if seq_num in unique_seq:
          duplicates += 1
      else:
          unique_seq.add(seq_num)
      if seq_num < prev_seq:
          out_of_order += 1
      prev_seq = seq_num
  \<close>
\<close>

definition analyze_step :: "packet \<Rightarrow> seq_state \<Rightarrow> seq_state" where
  "analyze_step pkt s =
     (case parse_tag pkt of
        None \<Rightarrow> s
      | Some (ethertype, stream_id, seq_num) \<Rightarrow>
          let s1 = (if seq_num \<in> unique_seq s
                    then s\<lparr>duplicates := duplicates s + 1\<rparr>
                    else s\<lparr>unique_seq := insert seq_num (unique_seq s)\<rparr>);
              s2 = (if seq_num < prev_seq s1
                    then s1\<lparr>out_of_order := out_of_order s1 + 1\<rparr>
                    else s1)
          in s2\<lparr>prev_seq := seq_num\<rparr>)"

record analysis =
  total_packets :: nat
  unique_packets :: nat
  a_duplicates :: nat
  a_out_of_order :: nat
  replication_ratio :: real
  elimination_efficiency :: real

text \<open>
  \<^verbatim>\<open>FRERTest.analyze_pcap\<close>, from the point where the capture has been read into
  \<^verbatim>\<open>packets\<close>.
  \<^verbatim>\<open>
      total_packets = len(packets)
      ...
      unique_packets = len(unique_seq)
      replication_ratio = (duplicates / unique_packets * 100) if unique_packets > 0 else 0
      ... "elimination_efficiency": (duplicates / total_packets * 100) if total_packets > 0 else 0
  \<close>
\<close>

definition analyze_pcap :: "packet list \<Rightarrow> analysis" where
  "analyze_pcap packets =
     (let total = length packets;
          s = fold analyze_step packets seq_init;
          uniq = card (unique_seq s)
      in \<lparr>total_packets = total,
          unique_packets = uniq,
          a_duplicates = duplicates s,
          a_out_of_order = out_of_order s,
          replication_ratio =
            (if uniq > 0 then real (duplicates s) / real uniq * 100 else 0),
          elimination_efficiency =
            (if total > 0 then real (duplicates s) / real total * 100 else 0)\<rparr>)"

text \<open>A record is tagged when the guards let it through; its sequence number.\<close>

definition seq_of :: "packet \<Rightarrow> int option" where
  "seq_of pkt = map_option (\<lambda>(ethertype, stream_id, seq_num). seq_num) (parse_tag pkt)"

definition stream_of :: "packet \<Rightarrow> int option" where
  "stream_of pkt = map_option (\<lambda>(ethertype, stream_id, seq_num). stream_id) (parse_tag pkt)"

text \<open>
  What the counts are compared with: whether the guards let a packet through, the
  sequence numbers of a capture, and the positions whose sequence number has occurred at an
  earlier position. None of them looks at the stream.
\<close>

definition tagged :: "packet \<Rightarrow> bool" where
  "tagged pkt \<longleftrightarrow> parse_tag pkt \<noteq> None"

definition seen_in :: "packet list \<Rightarrow> int set" where
  "seen_in pkts = {q. \<exists>p \<in> set pkts. seq_of p = Some q}"

definition repeats :: "packet list \<Rightarrow> nat set" where
  "repeats pkts =
     {i. i < length pkts \<and> (\<exists>q. seq_of (pkts ! i) = Some q \<and> (\<exists>j<i. seq_of (pkts ! j) = Some q))}"

text \<open>Two tagged records of the streams 1 and 2 with the sequence number 7, and an untagged one.\<close>

definition pkt_s1_q7 :: packet where
  "pkt_s1_q7 = Some [0xf1, 0xc1, 0, 1, 0, 0, 0, 7]"

definition pkt_s2_q7 :: packet where
  "pkt_s2_q7 = Some [0xf1, 0xc1, 0, 2, 0, 0, 0, 7]"

definition pkt_untagged :: packet where
  "pkt_untagged = Some [0x08, 0x00, 0, 1]"

section \<open>Rate search: binary\_search\_throughput\<close>

text \<open>
  \<^verbatim>\<open>RFC2544Test.binary_search_throughput\<close>. The measurement
  \<^verbatim>\<open>test_throughput_iperf3(frame_size, current_mbps, duration=10)\<close> is the probe: it is
  given the number of the call (the value of \<^verbatim>\<open>iterations\<close>) and the rate, and answers
  \<^verbatim>\<open>None\<close> or the \<^verbatim>\<open>loss_percent\<close> of its report, so that two calls at one rate may
  answer differently.
\<close>

type_synonym probe = "nat \<Rightarrow> real \<Rightarrow> real option"

record search_state =
  min_mbps :: real
  max_mbps :: real
  best_throughput :: real
  iterations :: nat

definition tolerance :: real where
  "tolerance = 1 / 100"

definition zero_loss_threshold :: real where
  "zero_loss_threshold = 1 / 1000"

definition max_iterations :: nat where
  "max_iterations = 20"

definition bs_init :: search_state where
  "bs_init = \<lparr>min_mbps = 1, max_mbps = 1000, best_throughput = 0, iterations = 0\<rparr>"

text \<open>
  The condition of the loop,
  \<^verbatim>\<open>(max_mbps - min_mbps) / max_mbps > tolerance and iterations < max_iterations\<close>;
  the division comes first and raises on a zero divisor.
\<close>

definition bs_guard :: "search_state \<Rightarrow> py_error + bool" where
  "bs_guard s =
     bind_err (py_div (max_mbps s - min_mbps s) (max_mbps s)) (\<lambda>q.
       Inr (q > tolerance \<and> iterations s < max_iterations))"

definition current_mbps :: "search_state \<Rightarrow> real" where
  "current_mbps s = (min_mbps s + max_mbps s) / 2"

text \<open>
  The body of the loop:
  \<^verbatim>\<open>
      iterations += 1
      current_mbps = (min_mbps + max_mbps) / 2
      result = self.test_throughput_iperf3(frame_size, current_mbps, duration=10)
      if result is None:
          max_mbps = current_mbps
          continue
      loss_percent = result["loss_percent"]
      if loss_percent < zero_loss_threshold:
          min_mbps = current_mbps
          best_throughput = current_mbps
      else:
          max_mbps = current_mbps
  \<close>
\<close>

definition bs_body :: "probe \<Rightarrow> search_state \<Rightarrow> search_state" where
  "bs_body prb s =
     (let s1 = s\<lparr>iterations := iterations s + 1\<rparr>;
          cur = current_mbps s1
      in case prb (iterations s1) cur of
           None \<Rightarrow> s1\<lparr>max_mbps := cur\<rparr>
         | Some loss_percent \<Rightarrow>
             if loss_percent < zero_loss_threshold
             then s1\<lparr>min_mbps := cur, best_throughput := cur\<rparr>
             else s1\<lparr>max_mbps := cur\<rparr>)"

function bs_loop :: "probe \<Rightarrow> search_state \<Rightarrow> py_error + search_state" where
  "bs_loop prb s =
     (case bs_guard s of
        Inl e \<Rightarrow> Inl e
      | Inr go \<Rightarrow> if go then bs_loop prb (bs_body prb s) else Inr s)"
  by pat_completeness auto
termination
proof (relation "measure (\<lambda>(prb, s). max_iterations - iterations s)")
  show "wf (measure (\<lambda>(prb, s). max_iterations - iterations s))" by simp
next
  fix prb :: probe and s :: search_state and go :: bool
  assume g: "bs_guard s = Inr go" and go: "go"
  from g go have "iterations s < max_iterations"
    by (auto simp: bs_guard_def bind_err_def py_div_def split: if_splits)
  moreover have "iterations (bs_body prb s) = iterations s + 1"
    by (simp add: bs_body_def Let_def split: option.splits)
  ultimately show "((prb, bs_body prb s), (prb, s)) \<in> measure (\<lambda>(prb, s). max_iterations - iterations s)"
    by simp
qed

declare bs_loop.simps [simp del]

definition binary_search_throughput :: "probe \<Rightarrow> py_error + real" where
  "binary_search_throughput prb =
     bind_err (bs_loop prb bs_init) (\<lambda>s. Inr (best_throughput s))"

text \<open>
  The states the loop goes through: the one it starts from, and the one after each round
  of the body that the condition lets in.
\<close>

inductive bs_reach :: "probe \<Rightarrow> search_state \<Rightarrow> bool" for prb :: probe where
  bs_start: "bs_reach prb bs_init"
| bs_round: "bs_reach prb s \<Longrightarrow> bs_guard s = Inr True \<Longrightarrow> bs_reach prb (bs_body prb s)"

code_pred bs_reach .

text \<open>
  What holds in every state of this loop: the bounds are in order and at least 1,
  \<open>best_throughput\<close> is below the upper bound and is either still 0 or the lower bound,
  and the count of rounds is within its limit.
\<close>

definition bs_inv :: "search_state \<Rightarrow> bool" where
  "bs_inv s \<longleftrightarrow>
     1 \<le> min_mbps s \<and> min_mbps s \<le> max_mbps s \<and> best_throughput s \<le> max_mbps s \<and>
     (best_throughput s = 0 \<or> best_throughput s = min_mbps s) \<and>
     iterations s \<le> max_iterations"

text \<open>
  After \<open>k\<close> rounds the window is one of the \<open>2 ^ k\<close> equal parts of the interval from 1
  to 1000.
\<close>

definition on_grid :: "search_state \<Rightarrow> bool" where
  "on_grid s \<longleftrightarrow>
     (\<exists>j::nat. min_mbps s = 1 + 999 * real j / 2 ^ iterations s \<and>
               max_mbps s = 1 + 999 * (real j + 1) / 2 ^ iterations s)"

text \<open>
  The end of the loop as the specification words it: \<open>(high-low)/high < tolerance\<close> or
  \<open>iterations == max_iterations\<close>.
\<close>

definition exit_spec :: "search_state \<Rightarrow> bool" where
  "exit_spec s \<longleftrightarrow>
     (max_mbps s - min_mbps s) / max_mbps s < tolerance \<or> iterations s = max_iterations"

text \<open>
  \<open>best_throughput\<close> is a rate observed as passing: some call of the probe made so far at
  this very rate answered with a loss below the threshold.
\<close>

definition observed_passing :: "probe \<Rightarrow> nat \<Rightarrow> real \<Rightarrow> bool" where
  "observed_passing prb n r \<longleftrightarrow>
     (\<exists>k \<in> {1..n}. \<exists>loss. prb k r = Some loss \<and> loss < zero_loss_threshold)"

text \<open>A probe that always fails, one that never loses a frame, one that loses above 300 Mbps.\<close>

definition probe_fail :: probe where
  "probe_fail k r = None"

definition probe_clean :: probe where
  "probe_clean k r = Some 0"

definition probe_300 :: probe where
  "probe_300 k r = Some (if r \<le> 300 then 0 else 5)"

section \<open>Rate search: test\_rfc2544\_throughput\<close>

text \<open>
  The search of \<^verbatim>\<open>NetworkTester.test_rfc2544_throughput\<close> for one frame size. The probe
  stands for the iperf3 run and the reading of its report inside \<^verbatim>\<open>try\<close>: it is given
  the loop index and the rate, and answers \<^verbatim>\<open>None\<close> when the reading raises
  \<^verbatim>\<open>JSONDecodeError\<close> or \<^verbatim>\<open>KeyError\<close>, and \<open>(loss_percent, actual_rate)\<close> otherwise.
\<close>

type_synonym probe2 = "nat \<Rightarrow> real \<Rightarrow> (real \<times> real) option"

datatype iteration_entry =
    Measured real real real
  | Errored real

record rate_state =
  min_rate :: real
  max_rate :: real
  best_rate :: real
  iteration_log :: "iteration_entry list"

definition tr_init :: rate_state where
  "tr_init = \<lparr>min_rate = 1, max_rate = 1000, best_rate = 0, iteration_log = []\<rparr>"

definition test_rate :: "rate_state \<Rightarrow> real" where
  "test_rate s = (min_rate s + max_rate s) / 2"

text \<open>
  One round of \<^verbatim>\<open>for iteration in range(10)\<close>; the second component says whether the
  round ended in \<^verbatim>\<open>break\<close>.
  \<^verbatim>\<open>
      test_rate = (min_rate + max_rate) / 2
      try:
          ... loss_percent, actual_rate read from the report ...
          iterations.append({'target_rate': ..., 'actual_rate': ..., 'loss_percent': ...})
          if loss_percent < 0.001:
              best_rate = test_rate
              min_rate = test_rate
          else:
              max_rate = test_rate
          if (max_rate - min_rate) / max_rate < tolerance:
              break
      except (json.JSONDecodeError, KeyError) as e:
          iterations.append({'target_rate': test_rate, 'error': str(e)})
  \<close>
\<close>

definition tr_body :: "probe2 \<Rightarrow> nat \<Rightarrow> rate_state \<Rightarrow> py_error + (rate_state \<times> bool)" where
  "tr_body prb i s =
     (let r = test_rate s
      in case prb i r of
           None \<Rightarrow> Inr (s\<lparr>iteration_log := iteration_log s @ [Errored r]\<rparr>, False)
         | Some (loss_percent, actual_rate) \<Rightarrow>
             let s1 = s\<lparr>iteration_log := iteration_log s @ [Measured r actual_rate loss_percent]\<rparr>;
                 s2 = (if loss_percent < 1 / 1000
                       then s1\<lparr>best_rate := r, min_rate := r\<rparr>
                       else s1\<lparr>max_rate := r\<rparr>)
             in bind_err (py_div (max_rate s2 - min_rate s2) (max_rate s2)) (\<lambda>q.
                  Inr (s2, q < tolerance)))"

fun tr_loop :: "probe2 \<Rightarrow> nat list \<Rightarrow> rate_state \<Rightarrow> py_error + rate_state" where
  "tr_loop prb [] s = Inr s"
| "tr_loop prb (i # rest) s =
     (case tr_body prb i s of
        Inl e \<Rightarrow> Inl e
      | Inr (s', brk) \<Rightarrow> if brk then Inr s' else tr_loop prb rest s')"

definition test_rfc2544_throughput :: "probe2 \<Rightarrow> py_error + rate_state" where
  "test_rfc2544_throughput prb = tr_loop prb [0..<10] tr_init"

text \<open>
  The states of this loop: \<open>tr_reach prb i stopped s\<close> says that \<open>s\<close> is the state after
  \<open>i\<close> rounds, and whether the last of them ended in \<^verbatim>\<open>break\<close>.
\<close>

inductive tr_reach :: "probe2 \<Rightarrow> nat \<Rightarrow> bool \<Rightarrow> rate_state \<Rightarrow> bool" for prb :: probe2 where
  tr_start: "tr_reach prb 0 False tr_init"
| tr_round: "tr_reach prb i False s \<Longrightarrow> i < 10 \<Longrightarrow> tr_body prb i s = Inr (s', brk)
     \<Longrightarrow> tr_reach prb (Suc i) brk s'"

code_pred tr_reach .

definition tr_inv :: "rate_state \<Rightarrow> bool" where
  "tr_inv s \<longleftrightarrow>
     1 \<le> min_rate s \<and> min_rate s \<le> max_rate s \<and> best_rate s \<le> max_rate s \<and>
     (best_rate s = 0 \<or> best_rate s = min_rate s)"

definition observed_passing2 :: "probe2 \<Rightarrow> nat \<Rightarrow> real \<Rightarrow> bool" where
  "observed_passing2 prb n r \<longleftrightarrow>
     (\<exists>k < n. \<exists>loss actual. prb k r = Some (loss, actual) \<and> loss < 1 / 1000)"

definition probe2_fail :: probe2 where
  "probe2_fail i r = None"

definition probe2_300 :: probe2 where
  "probe2_300 i r = Some (if r \<le> 300 then 0 else 5, r)"

section \<open>Burst capacity\<close>

text \<open>
  \<^verbatim>\<open>RFC2544ExtendedTest.back_to_back_test\<close>. The probe stands for the \<^verbatim>\<open>try\<close> block that
  sends the burst and pings: it is given the trial and the burst size, and answers
  \<^verbatim>\<open>None\<close> when the block raises and the \<^verbatim>\<open>loss_rate\<close> it has parsed otherwise
  (\<open>100\<close> when the ping prints no loss).
\<close>

type_synonym burst_probe = "nat \<Rightarrow> nat \<Rightarrow> real option"

definition test_bursts :: "nat list" where
  "test_bursts = [100, 500, 1000, 2000, 5000, 10000]"

text \<open>
  \<^verbatim>\<open>for burst_size in test_bursts\<close>, started with the value \<^verbatim>\<open>best_burst\<close> has at that
  moment:
  \<^verbatim>\<open>
      if loss_rate < 1.0:
          best_burst = max(best_burst, burst_size)
      else:
          break  # Stop increasing burst size
  except Exception as e:
      break
  \<close>
\<close>

fun scan_bursts :: "(nat \<Rightarrow> real option) \<Rightarrow> nat list \<Rightarrow> nat \<Rightarrow> nat" where
  "scan_bursts prb [] best_burst = best_burst"
| "scan_bursts prb (burst_size # rest) best_burst =
     (case prb burst_size of
        None \<Rightarrow> best_burst
      | Some loss_rate \<Rightarrow>
          if loss_rate < 1 then scan_bursts prb rest (max best_burst burst_size)
          else best_burst)"

text \<open>
  \<^verbatim>\<open>for trial in range(self.num_trials)\<close>. \<^verbatim>\<open>best_burst = 0\<close> stands before this loop, and
  nothing in the loop sets it back: every trial starts from the value the one before has
  left. Each trial appends \<^verbatim>\<open>{"trial": trial + 1, "max_burst": best_burst}\<close>.
\<close>

fun run_trials :: "burst_probe \<Rightarrow> nat list \<Rightarrow> nat \<Rightarrow> (nat \<times> nat) list \<Rightarrow> (nat \<times> nat) list" where
  "run_trials prb [] best_burst trials = trials"
| "run_trials prb (trial # rest) best_burst trials =
     (let best_burst' = scan_bursts (prb trial) test_bursts best_burst
      in run_trials prb rest best_burst' (trials @ [(trial + 1, best_burst')]))"

record burst_result =
  b_frame_size :: int
  b_trials :: "(nat \<times> nat) list"
  max_burst_no_loss :: nat
  avg_burst :: "real option"
  std_burst :: "real option"

text \<open>
  \<^verbatim>\<open>
      if results["trials"]:
          max_bursts = [t["max_burst"] for t in results["trials"]]
          results["max_burst_no_loss"] = min(max_bursts)  # Conservative estimate
          results["avg_burst"] = statistics.mean(max_bursts)
          results["std_burst"] = statistics.stdev(max_bursts) if len(max_bursts) > 1 else 0
  \<close>
  \<^verbatim>\<open>num_trials\<close> is the attribute of that name, 3 as the class sets it. The parameter
  \<^verbatim>\<open>max_burst\<close> and the variables \<^verbatim>\<open>min_burst\<close>, \<^verbatim>\<open>max_burst_size\<close> and
  \<^verbatim>\<open>burst_result\<close> are written and never read.
\<close>

definition back_to_back_test :: "int \<Rightarrow> nat \<Rightarrow> burst_probe \<Rightarrow> py_error + burst_result" where
  "back_to_back_test fs num_trials prb =
     (let trials = run_trials prb [0..<num_trials] 0 [];
          results = \<lparr>b_frame_size = fs, b_trials = trials, max_burst_no_loss = 0,
                     avg_burst = None, std_burst = None\<rparr>
      in if trials \<noteq> []
         then let max_bursts = map snd trials
              in bind_err (py_mean (map real max_bursts)) (\<lambda>avg.
                 bind_err (if length max_bursts > 1 then py_stdev (map real max_bursts) else Inr 0) (\<lambda>sd.
                 Inr (results\<lparr>max_burst_no_loss := fold min (tl max_bursts) (hd max_bursts),
                        avg_burst := Some avg, std_burst := Some sd\<rparr>)))
         else Inr results)"

text \<open>
  The result of one trial as the specification words it: the candidates in ascending
  order, stop at the first one whose loss is at or above the threshold (a failed probe
  counts as worst-case loss), the largest size tested before it that passed, 0 if the
  first candidate fails.
\<close>

fun trial_result_spec :: "(nat \<Rightarrow> real option) \<Rightarrow> nat list \<Rightarrow> nat \<Rightarrow> nat" where
  "trial_result_spec prb [] passed = passed"
| "trial_result_spec prb (c # cs) passed =
     (case prb c of
        None \<Rightarrow> passed
      | Some loss \<Rightarrow> if loss \<ge> 1 then passed else trial_result_spec prb cs c)"

definition max_burst_spec :: "burst_probe \<Rightarrow> nat \<Rightarrow> nat" where
  "max_burst_spec prb num_trials =
     Min (set (map (\<lambda>trial. trial_result_spec (prb trial) test_bursts 0) [0..<num_trials]))"

text \<open>
  A device that takes bursts of up to 1000 frames in the first trial and answers no ping
  in the trials after it.
\<close>

definition probe_burst :: burst_probe where
  "probe_burst trial burst_size =
     (if trial = 0 then Some (if burst_size \<le> 1000 then 0 else 2) else Some 100)"

section \<open>Percentile: agreement of code and specification\<close>

lemma bind_err_Inr [simp]: "bind_err (Inr x) f = f x"
  by (simp add: bind_err_def)

lemma bind_err_Inl [simp]: "bind_err (Inl e) f = Inl e"
  by (simp add: bind_err_def)

lemma py_get_in_range: "0 \<le> i \<Longrightarrow> i < int (length xs) \<Longrightarrow> py_get xs i = Inr (xs ! nat i)"
  by (simp add: py_get_def)

lemma index_bounds:
  fixes p :: real
  assumes "n > 0" "0 \<le> p" "p \<le> 100"
  shows "0 \<le> (real n - 1) * p / 100" and "(real n - 1) * p / 100 \<le> real n - 1"
proof -
  from assms have n1: "0 \<le> real n - 1" by simp
  with assms show "0 \<le> (real n - 1) * p / 100" by simp
  have "(real n - 1) * p \<le> (real n - 1) * 100"
    using n1 assms(3) by (rule mult_left_mono[rotated])
  then show "(real n - 1) * p / 100 \<le> real n - 1" by simp
qed

lemma floor_index_lt:
  fixes x :: real
  assumes "0 \<le> x" "x \<le> real n - 1" "n > 0"
  shows "0 \<le> \<lfloor>x\<rfloor>" and "\<lfloor>x\<rfloor> < int n" and "nat \<lfloor>x\<rfloor> < n"
proof -
  from assms(1) show a: "0 \<le> \<lfloor>x\<rfloor>" by simp
  have "real_of_int \<lfloor>x\<rfloor> \<le> x" by simp
  with assms(2) have "real_of_int \<lfloor>x\<rfloor> < real n" by linarith
  then show b: "\<lfloor>x\<rfloor> < int n" by linarith
  from a b show "nat \<lfloor>x\<rfloor> < n" by linarith
qed

lemma percentile_refines:
  assumes ne: "data \<noteq> []" and p0: "0 \<le> p" and p100: "p \<le> 100"
  shows "percentile data p = Inr (percentile_spec data p)"
proof -
  define s where "s = sort data"
  define n where "n = length s"
  define idx where "idx = (real n - 1) * p / 100"
  from ne have npos: "n > 0" by (simp add: n_def s_def)
  have idx0: "0 \<le> idx" and idxn: "idx \<le> real n - 1"
    unfolding idx_def using index_bounds[OF npos p0 p100] by simp_all
  have fl0: "0 \<le> \<lfloor>idx\<rfloor>" and fln: "\<lfloor>idx\<rfloor> < int n" and flnat: "nat \<lfloor>idx\<rfloor> < n"
    using floor_index_lt[OF idx0 idxn npos] by simp_all
  have idx_code: "of_int (int (length (sort data)) - 1) * p / 100 = idx"
    by (simp add: idx_def n_def s_def)
  have trunc: "py_int idx = \<lfloor>idx\<rfloor>" using idx0 by (simp add: py_int_def)
  have getf: "py_get s \<lfloor>idx\<rfloor> = Inr (s ! nat \<lfloor>idx\<rfloor>)"
    using fl0 fln by (simp add: py_get_in_range n_def)
  have fl_real: "real (nat \<lfloor>idx\<rfloor>) = of_int \<lfloor>idx\<rfloor>" using fl0 by simp
  show ?thesis
  proof (cases "\<lfloor>idx\<rfloor> + 1 \<ge> int n")
    case True
    then have "nat \<lfloor>idx\<rfloor> + 1 \<ge> n" using fl0 by linarith
    with True show ?thesis
      using getf
      by (simp add: percentile_def percentile_spec_def Let_def idx_code trunc
          s_def[symmetric] n_def[symmetric] idx_def[symmetric])
  next
    case False
    then have c: "\<not> nat \<lfloor>idx\<rfloor> + 1 \<ge> n" using fl0 by linarith
    have getc: "py_get s (\<lfloor>idx\<rfloor> + 1) = Inr (s ! (nat \<lfloor>idx\<rfloor> + 1))"
    proof -
      have "nat (\<lfloor>idx\<rfloor> + 1) = nat \<lfloor>idx\<rfloor> + 1" using fl0 by linarith
      moreover have "0 \<le> \<lfloor>idx\<rfloor> + 1" "\<lfloor>idx\<rfloor> + 1 < int (length s)"
        using fl0 False by (simp_all add: n_def)
      ultimately show ?thesis by (simp add: py_get_in_range)
    qed
    from False c show ?thesis
      using getf getc fl_real
      by (simp add: percentile_def percentile_spec_def Let_def idx_code trunc
          s_def[symmetric] n_def[symmetric] idx_def[symmetric])
  qed
qed

text \<open>
  Claim C3. For every non-empty list of samples and every percentile \<open>p\<close> between 0 and
  100, \<open>percentile\<close> returns (it raises nothing) what the specification describes: the
  samples sorted ascending, \<open>index = (n-1)*p/100\<close>, the element at \<open>\<lfloor>index\<rfloor>\<close> when
  \<open>\<lfloor>index\<rfloor> + 1 \<ge> n\<close>, the interpolation between the elements at \<open>\<lfloor>index\<rfloor>\<close> and
  \<open>\<lfloor>index\<rfloor> + 1\<close> otherwise. For the samples 1, 2, 3, 4, 5 it returns 3 at \<open>p = 50\<close> and
  4.6 at \<open>p = 90\<close>.
\<close>

theorem C3_percentile_formula:
  "(data \<noteq> [] \<and> 0 \<le> p \<and> p \<le> 100 \<longrightarrow> percentile data p = Inr (percentile_spec data p)) \<and>
   sorted (sort data) \<and> mset (sort data) = mset data \<and>
   percentile [1, 2, 3, 4, 5] 50 = Inr 3 \<and>
   percentile [1, 2, 3, 4, 5] 90 = Inr (46 / 10)"
proof -
  have "percentile [1, 2, 3, 4, 5] 50 = Inr 3"
    by (simp add: percentile_def py_int_def py_get_def Let_def)
  moreover have "percentile [1, 2, 3, 4, 5] 90 = Inr (46 / 10)"
    by (simp add: percentile_def py_int_def py_get_def Let_def)
  ultimately show ?thesis using percentile_refines[of data p] by simp
qed

theorem C3_witness:
  "[2, 1 :: real] \<noteq> [] \<and> (0 :: real) \<le> 25 \<and> (25 :: real) \<le> 100 \<and>
   percentile [2, 1] 25 = Inr (percentile_spec [2, 1] 25) \<and> percentile_spec [2, 1] 25 = 5 / 4"
proof -
  have "percentile_spec [2, 1] 25 = 5 / 4"
    by (simp add: percentile_spec_def Let_def)
  then show ?thesis using C3_percentile_formula[of "[2, 1]" 25] by simp
qed

section \<open>Order of the percentiles\<close>

lemma percentile_spec_interpolate:
  "percentile_spec xs p = interpolate (sort xs) ((real (length xs) - 1) * p / 100)"
  by (simp add: percentile_spec_def interpolate_def Let_def)

lemma frac_bounds:
  fixes x :: real
  assumes "0 \<le> x"
  shows "0 \<le> x - real (nat \<lfloor>x\<rfloor>)" and "x - real (nat \<lfloor>x\<rfloor>) < 1"
proof -
  from assms have "real (nat \<lfloor>x\<rfloor>) = of_int \<lfloor>x\<rfloor>" by simp
  then show "0 \<le> x - real (nat \<lfloor>x\<rfloor>)" and "x - real (nat \<lfloor>x\<rfloor>) < 1"
    by linarith+
qed

lemma interpolate_lower:
  assumes srt: "sorted s" and x0: "0 \<le> x" and xn: "x \<le> real (length s) - 1"
  shows "s ! nat \<lfloor>x\<rfloor> \<le> interpolate s x"
proof (cases "nat \<lfloor>x\<rfloor> + 1 \<ge> length s")
  case True
  then show ?thesis by (simp add: interpolate_def Let_def)
next
  case False
  define f where "f = nat \<lfloor>x\<rfloor>"
  define a where "a = x - real f"
  from False have lt: "f + 1 < length s" by (simp add: f_def)
  with srt have le: "s ! f \<le> s ! (f + 1)" by (simp add: sorted_nth_mono)
  have a0: "0 \<le> a" using frac_bounds(1)[OF x0] by (simp add: a_def f_def)
  have "interpolate s x - s ! f = a * (s ! (f + 1) - s ! f)"
    using False by (simp add: interpolate_def Let_def f_def a_def algebra_simps)
  moreover have "0 \<le> a * (s ! (f + 1) - s ! f)" using a0 le by simp
  ultimately show ?thesis by (simp add: f_def)
qed

lemma interpolate_upper:
  assumes srt: "sorted s" and x0: "0 \<le> x" and lt: "nat \<lfloor>x\<rfloor> + 1 < length s"
  shows "interpolate s x \<le> s ! (nat \<lfloor>x\<rfloor> + 1)"
proof -
  define f where "f = nat \<lfloor>x\<rfloor>"
  define a where "a = x - real f"
  from lt srt have le: "s ! f \<le> s ! (f + 1)" by (simp add: sorted_nth_mono f_def)
  have a1: "a \<le> 1" using frac_bounds(2)[OF x0] by (simp add: a_def f_def)
  have "s ! (f + 1) - interpolate s x = (1 - a) * (s ! (f + 1) - s ! f)"
    using lt by (simp add: interpolate_def Let_def f_def a_def algebra_simps)
  moreover have "0 \<le> (1 - a) * (s ! (f + 1) - s ! f)" using a1 le by simp
  ultimately show ?thesis by (simp add: f_def)
qed

lemma interpolate_mono:
  assumes srt: "sorted s" and x0: "0 \<le> x" and xy: "x \<le> y" and yn: "y \<le> real (length s) - 1"
  shows "interpolate s x \<le> interpolate s y"
proof -
  define f where "f = nat \<lfloor>x\<rfloor>"
  define g where "g = nat \<lfloor>y\<rfloor>"
  have y0: "0 \<le> y" using x0 xy by simp
  have fg: "f \<le> g" unfolding f_def g_def using xy by (simp add: floor_mono nat_mono)
  have "real_of_int \<lfloor>y\<rfloor> \<le> y" by simp
  with yn have "real_of_int \<lfloor>y\<rfloor> < real (length s)" by linarith
  then have gn: "g < length s" unfolding g_def using y0 by linarith
  show ?thesis
  proof (cases "f = g")
    case True
    show ?thesis
    proof (cases "f + 1 \<ge> length s")
      case T2: True
      with True show ?thesis by (simp add: interpolate_def Let_def f_def g_def)
    next
      case False
      then have lt: "f + 1 < length s" by simp
      with srt have le: "s ! f \<le> s ! (f + 1)" by (simp add: sorted_nth_mono)
      have "interpolate s y - interpolate s x = (y - x) * (s ! (f + 1) - s ! f)"
        using False True by (simp add: interpolate_def Let_def f_def[symmetric] g_def[symmetric] algebra_simps)
      moreover have "0 \<le> (y - x) * (s ! (f + 1) - s ! f)" using xy le by simp
      ultimately show ?thesis by simp
    qed
  next
    case False
    with fg have f1: "f + 1 \<le> g" by simp
    with gn have lt: "nat \<lfloor>x\<rfloor> + 1 < length s" by (simp add: f_def)
    have "interpolate s x \<le> s ! (f + 1)"
      using interpolate_upper[OF srt x0 lt] by (simp add: f_def)
    also have "\<dots> \<le> s ! g" using srt f1 gn by (simp add: sorted_nth_mono)
    also have "\<dots> \<le> interpolate s y"
      using interpolate_lower[OF srt y0 yn] by (simp add: g_def)
    finally show ?thesis .
  qed
qed

lemma percentile_spec_mono:
  assumes ne: "xs \<noteq> []" and p0: "0 \<le> p" and pq: "p \<le> q" and q100: "q \<le> 100"
  shows "percentile_spec xs p \<le> percentile_spec xs q"
proof -
  from ne have n1: "0 \<le> real (length xs) - 1" by (cases xs) simp_all
  have a: "0 \<le> (real (length xs) - 1) * p / 100" using n1 p0 by simp
  have b: "(real (length xs) - 1) * p / 100 \<le> (real (length xs) - 1) * q / 100"
    using n1 pq by (simp add: mult_left_mono divide_right_mono)
  have "(real (length xs) - 1) * q \<le> (real (length xs) - 1) * 100"
    using n1 q100 by (rule mult_left_mono[rotated])
  then have c: "(real (length xs) - 1) * q / 100 \<le> real (length (sort xs)) - 1" by simp
  show ?thesis
    unfolding percentile_spec_interpolate
    by (rule interpolate_mono[OF _ a b c]) simp
qed


lemma sort_eq_Nil [simp]: "sort xs = [] \<longleftrightarrow> xs = []"
  by (metis length_0_conv length_sort)

lemma py_min_Min: "xs \<noteq> [] \<Longrightarrow> py_min xs = Inr (Min (set xs))"
  by (cases xs) (simp_all add: py_min_def Min.set_eq_fold[symmetric])

lemma py_max_Max: "xs \<noteq> [] \<Longrightarrow> py_max xs = Inr (Max (set xs))"
  by (cases xs) (simp_all add: py_max_def Max.set_eq_fold[symmetric])

lemma sorted_first_Min:
  fixes s :: "real list"
  assumes "sorted s" "s \<noteq> []"
  shows "s ! 0 = Min (set s)"
proof (rule Min_eqI[symmetric])
  show "finite (set s)" by simp
  show "s ! 0 \<in> set s" using assms(2) by simp
  fix y assume "y \<in> set s"
  then obtain i where "i < length s" "s ! i = y" by (auto simp: in_set_conv_nth)
  with assms(1) show "s ! 0 \<le> y" using sorted_nth_mono[of s 0 i] by simp
qed

lemma sorted_last_Max:
  fixes s :: "real list"
  assumes "sorted s" "s \<noteq> []"
  shows "s ! (length s - 1) = Max (set s)"
proof (rule Max_eqI[symmetric])
  show "finite (set s)" by simp
  show "s ! (length s - 1) \<in> set s" using assms(2) by simp
  fix y assume "y \<in> set s"
  then obtain i where "i < length s" "s ! i = y" by (auto simp: in_set_conv_nth)
  with assms(1) show "y \<le> s ! (length s - 1)"
    using sorted_nth_mono[of s i "length s - 1"] by auto
qed

lemma percentile_spec_0:
  assumes "xs \<noteq> []"
  shows "percentile_spec xs 0 = Min (set xs)"
proof -
  from assms have "sort xs \<noteq> []" by simp
  then have "sort xs ! 0 = Min (set xs)"
    using sorted_first_Min[of "sort xs"] by simp
  then show ?thesis by (simp add: percentile_spec_def Let_def)
qed

lemma percentile_spec_100:
  assumes ne: "xs \<noteq> []"
  shows "percentile_spec xs 100 = Max (set xs)"
proof -
  from ne obtain m where m: "length xs = Suc m" by (cases xs) simp_all
  have idx: "(real (length xs) - 1) * 100 / 100 = real m" by (simp add: m)
  from ne have "sort xs \<noteq> []" by simp
  then have "sort xs ! (length (sort xs) - 1) = Max (set xs)"
    using sorted_last_Max[of "sort xs"] by simp
  then have "sort xs ! m = Max (set xs)" by (simp add: m)
  then show ?thesis
    unfolding percentile_spec_interpolate idx
    by (simp add: interpolate_def Let_def m)
qed

lemma py_median_percentile:
  assumes ne: "xs \<noteq> []"
  shows "py_median xs = Inr (percentile_spec xs 50)"
proof -
  define n where "n = length xs"
  from ne have npos: "n > 0" by (simp add: n_def)
  show ?thesis
  proof (cases "n mod 2 = 1")
    case True
    then obtain k where k: "n = 2 * k + 1" by (metis mult_div_mod_eq)
    have idx: "(real n - 1) * 50 / 100 = real k" by (simp add: k)
    have "percentile_spec xs 50 = sort xs ! k"
      unfolding percentile_spec_interpolate n_def[symmetric] idx
      by (simp add: interpolate_def Let_def)
    moreover have "py_median xs = Inr (sort xs ! k)"
      using True npos ne by (simp add: py_median_def Let_def n_def[symmetric]) (simp add: k)
    ultimately show ?thesis by simp
  next
    case False
    then have "n mod 2 = 0" by simp
    then obtain k where k0: "n = 2 * k" by (metis mult_div_mod_eq add.right_neutral)
    with npos obtain j where j: "k = Suc j" by (cases k) simp_all
    have idx: "(real n - 1) * 50 / 100 = real j + 1 / 2" by (simp add: k0 j)
    have fl: "\<lfloor>real j + 1 / 2\<rfloor> = int j" by linarith
    have "percentile_spec xs 50 = sort xs ! j * (1 / 2) + sort xs ! (j + 1) * (1 / 2)"
      unfolding percentile_spec_interpolate n_def[symmetric] idx
      using fl by (simp add: interpolate_def Let_def n_def[symmetric] k0 j)
    moreover have "py_median xs = Inr ((sort xs ! j + sort xs ! (j + 1)) / 2)"
      using False npos ne by (simp add: py_median_def Let_def n_def[symmetric]) (simp add: k0 j)
    ultimately show ?thesis by (simp add: field_simps)
  qed
qed


lemma spec_chain:
  assumes ne: "xs \<noteq> []"
  shows "Min (set xs) \<le> percentile_spec xs 50"
    and "percentile_spec xs 50 \<le> percentile_spec xs 90"
    and "percentile_spec xs 90 \<le> percentile_spec xs 95"
    and "percentile_spec xs 95 \<le> percentile_spec xs 99"
    and "percentile_spec xs 99 \<le> percentile_spec xs (999 / 10)"
    and "percentile_spec xs (999 / 10) \<le> Max (set xs)"
proof -
  have "percentile_spec xs 0 \<le> percentile_spec xs 50"
    by (rule percentile_spec_mono[OF ne]) simp_all
  then show "Min (set xs) \<le> percentile_spec xs 50"
    by (simp add: percentile_spec_0[OF ne])
  show "percentile_spec xs 50 \<le> percentile_spec xs 90"
    by (rule percentile_spec_mono[OF ne]) simp_all
  show "percentile_spec xs 90 \<le> percentile_spec xs 95"
    by (rule percentile_spec_mono[OF ne]) simp_all
  show "percentile_spec xs 95 \<le> percentile_spec xs 99"
    by (rule percentile_spec_mono[OF ne]) simp_all
  show "percentile_spec xs 99 \<le> percentile_spec xs (999 / 10)"
    by (rule percentile_spec_mono[OF ne]) simp_all
  have "percentile_spec xs (999 / 10) \<le> percentile_spec xs 100"
    by (rule percentile_spec_mono[OF ne]) simp_all
  then show "percentile_spec xs (999 / 10) \<le> Max (set xs)"
    by (simp add: percentile_spec_100[OF ne])
qed

lemma py_mean_total: "xs \<noteq> [] \<Longrightarrow> \<exists>m. py_mean xs = Inr m"
  by (simp add: py_mean_def)

lemma py_stdev_total: "length xs \<ge> 2 \<Longrightarrow> \<exists>d. py_stdev xs = Inr d"
  by (simp add: py_stdev_def Let_def)

lemma test_latency_icmp_ordered:
  assumes ne: "latencies \<noteq> []"
  shows "\<exists>st. test_latency_icmp fs latencies = Inr (Some st) \<and> percentiles_ordered st"
proof -
  obtain m where m: "py_mean latencies = Inr m" using py_mean_total[OF ne] by blast
  have p: "percentile latencies 90 = Inr (percentile_spec latencies 90)"
    "percentile latencies 95 = Inr (percentile_spec latencies 95)"
    "percentile latencies 99 = Inr (percentile_spec latencies 99)"
    "percentile latencies (999 / 10) = Inr (percentile_spec latencies (999 / 10))"
    by (rule percentile_refines[OF ne]; simp)+
  show ?thesis
  proof (cases "length latencies > 1")
    case True
    then obtain d where d: "py_stdev latencies = Inr d"
      using py_stdev_total[of latencies] by auto
    from True ne spec_chain[OF ne] show ?thesis
      by (simp add: test_latency_icmp_def py_min_Min py_max_Max py_median_percentile m d p
          percentiles_ordered_def)
  next
    case False
    with ne spec_chain[OF ne] show ?thesis
      by (simp add: test_latency_icmp_def py_min_Min py_max_Max py_median_percentile m p
          percentiles_ordered_def)
  qed
qed

lemma calculate_stats_ordered:
  assumes r: "calculate_stats latencies lbl = Inr st"
  shows "percentiles_ordered st"
proof -
  have ne: "latencies \<noteq> []"
  proof
    assume "latencies = []"
    with r show False by (simp add: calculate_stats_def py_min_def)
  qed
  obtain m where m: "py_mean latencies = Inr m" using py_mean_total[OF ne] by blast
  have p: "percentile latencies 50 = Inr (percentile_spec latencies 50)"
    "percentile latencies 90 = Inr (percentile_spec latencies 90)"
    "percentile latencies 95 = Inr (percentile_spec latencies 95)"
    "percentile latencies 99 = Inr (percentile_spec latencies 99)"
    "percentile latencies (999 / 10) = Inr (percentile_spec latencies (999 / 10))"
    by (rule percentile_refines[OF ne]; simp)+
  show ?thesis
  proof (cases "py_stdev latencies")
    case (Inl e)
    with r ne show ?thesis
      by (simp add: calculate_stats_def py_min_Min py_max_Max py_median_percentile m)
  next
    case (Inr d)
    with r ne have "st = \<lparr>st_count = length latencies, st_min = Min (set latencies),
       st_max = Max (set latencies), st_avg = m, st_median = percentile_spec latencies 50,
       st_stddev = d, st_p50 = percentile_spec latencies 50,
       st_p90 = percentile_spec latencies 90, st_p95 = percentile_spec latencies 95,
       st_p99 = percentile_spec latencies 99, st_p99_9 = percentile_spec latencies (999 / 10),
       st_jitter = d, label = lbl\<rparr>"
      by (simp add: calculate_stats_def py_min_Min py_max_Max py_median_percentile m p)
    then show ?thesis using spec_chain[OF ne] by (simp add: percentiles_ordered_def)
  qed
qed

lemma calculate_stats_total:
  assumes "length latencies \<ge> 2"
  shows "\<exists>st. calculate_stats latencies lbl = Inr st"
proof -
  from assms have ne: "latencies \<noteq> []" by auto
  obtain m where m: "py_mean latencies = Inr m" using py_mean_total[OF ne] by blast
  obtain d where d: "py_stdev latencies = Inr d" using py_stdev_total[OF assms] by blast
  have p: "percentile latencies 50 = Inr (percentile_spec latencies 50)"
    "percentile latencies 90 = Inr (percentile_spec latencies 90)"
    "percentile latencies 95 = Inr (percentile_spec latencies 95)"
    "percentile latencies 99 = Inr (percentile_spec latencies 99)"
    "percentile latencies (999 / 10) = Inr (percentile_spec latencies (999 / 10))"
    by (rule percentile_refines[OF ne]; simp)+
  show ?thesis
    using ne by (simp add: calculate_stats_def py_min_Min py_max_Max py_median_percentile m d p)
qed

section \<open>Order of the percentiles in double precision\<close>

text \<open>
  In double precision the examples of the specification come out as they are written:
  3.0 and the float of 4.6.
\<close>

lemma percentile_f64_examples:
  "percentile_f64 [1, 2, 3, 4, 5] (PyInt 50) = Inr 3 \<and>
   percentile_f64 [1, 2, 3, 4, 5] (PyInt 90) = Inr (f64 (46 / 10))"
  by code_simp

text \<open>
  Three samples 1.813: the steps of the interpolation at \<open>p = 90\<close> and at \<open>p = 95\<close>,
  each rounded as the float operation rounds it.
\<close>

lemma v1813_literal: "f64 (1813 / 1000) = v1813"
  by code_simp

lemma p90_f64:
  "percentile_f64 [v1813, v1813, v1813] (PyInt 90) = Inr (4082513062211355 / 2251799813685248)"
proof -
  have srt: "sort [v1813, v1813, v1813] = [v1813, v1813, v1813]" by simp
  have idx: "f64 (of_int ((int (length [v1813, v1813, v1813]) - 1) * 90) / 100)
      = 8106479329266893 / 4503599627370496" by code_simp
  have fl: "py_int_rat (8106479329266893 / 4503599627370496) = 1" by code_simp
  have fr: "f64 (8106479329266893 / 4503599627370496 - of_int 1) = 3602879701896397 / 4503599627370496"
    by code_simp
  have om: "f64 (1 - 3602879701896397 / 4503599627370496) = 900719925474099 / 4503599627370496"
    by code_simp
  have a: "f64 (v1813 * (900719925474099 / 4503599627370496)) = 3266010449769083 / 9007199254740992"
    by code_simp
  have b: "f64 (v1813 * (3602879701896397 / 4503599627370496)) = 816502612442271 / 562949953421312"
    by code_simp
  have c: "f64 (3266010449769083 / 9007199254740992 + 816502612442271 / 562949953421312)
      = 4082513062211355 / 2251799813685248" by code_simp
  have g1: "py_get [v1813, v1813, v1813] 1 = Inr v1813" by (simp add: py_get_def)
  have g2: "py_get [v1813, v1813, v1813] (1 + 1) = Inr v1813" by (simp add: py_get_def)
  show ?thesis
    unfolding percentile_f64_def Let_def srt py_number.case idx fl fr om g1 g2 bind_err_Inr a b c
    by simp
qed

lemma p95_f64:
  "percentile_f64 [v1813, v1813, v1813] (PyInt 95) = Inr v1813"
proof -
  have srt: "sort [v1813, v1813, v1813] = [v1813, v1813, v1813]" by simp
  have idx: "f64 (of_int ((int (length [v1813, v1813, v1813]) - 1) * 95) / 100)
      = 4278419646001971 / 2251799813685248" by code_simp
  have fl: "py_int_rat (4278419646001971 / 2251799813685248) = 1" by code_simp
  have fr: "f64 (4278419646001971 / 2251799813685248 - of_int 1) = 2026619832316723 / 2251799813685248"
    by code_simp
  have om: "f64 (1 - 2026619832316723 / 2251799813685248) = 225179981368525 / 2251799813685248"
    by code_simp
  have a: "f64 (v1813 * (225179981368525 / 2251799813685248)) = 6532020899538173 / 36028797018963968"
    by code_simp
  have b: "f64 (v1813 * (2026619832316723 / 2251799813685248)) = 7348523511980437 / 4503599627370496"
    by code_simp
  have c: "f64 (6532020899538173 / 36028797018963968 + 7348523511980437 / 4503599627370496)
      = v1813" by code_simp
  have g1: "py_get [v1813, v1813, v1813] 1 = Inr v1813" by (simp add: py_get_def)
  have g2: "py_get [v1813, v1813, v1813] (1 + 1) = Inr v1813" by (simp add: py_get_def)
  show ?thesis
    unfolding percentile_f64_def Let_def srt py_number.case idx fl fr om g1 g2 bind_err_Inr a b c
    by simp
qed

text \<open>
  Claim C7, as stated, fails on the floats the code computes with: for the three samples
  1.813, 1.813, 1.813 the interpolation is rounded to 1.8130000000000002 at \<open>p = 90\<close>
  and to 1.813 at \<open>p = 95\<close>, so \<open>p90 > p95\<close> (and \<open>p90 > max\<close>).
\<close>

theorem C7_counterexample:
  "f64 (1813 / 1000) = v1813 \<and>
   percentile_f64 [v1813, v1813, v1813] (PyInt 90) = Inr (4082513062211355 / 2251799813685248) \<and>
   percentile_f64 [v1813, v1813, v1813] (PyInt 95) = Inr v1813 \<and>
   v1813 < 4082513062211355 / 2251799813685248"
  using v1813_literal p90_f64 p95_f64 by (simp add: v1813_def)

text \<open>
  Claim C7, amended. For every non-empty list of samples the statistics are in the order
  \<open>min \<le> p50 \<le> p90 \<le> p95 \<le> p99 \<le> p99.9 \<le> max\<close> when the interpolation is
  evaluated in exact arithmetic: \<open>test_latency_icmp\<close> returns such a record, every record
  \<open>calculate_stats\<close> returns is one, and \<open>calculate_stats\<close> returns a record from two
  samples on. What double precision adds is the rounding of the interpolation.
\<close>

theorem C7_percentiles_ordered:
  assumes "latencies \<noteq> []"
  shows "(\<exists>st. test_latency_icmp fs latencies = Inr (Some st) \<and> percentiles_ordered st) \<and>
         (\<forall>st. calculate_stats latencies lbl = Inr st \<longrightarrow> percentiles_ordered st) \<and>
         (length latencies \<ge> 2 \<longrightarrow> (\<exists>st. calculate_stats latencies lbl = Inr st))"
  using test_latency_icmp_ordered[OF assms] calculate_stats_ordered calculate_stats_total
  by blast

theorem C7_witness:
  "[3, 1, 2 :: real] \<noteq> [] \<and>
   (\<exists>st. test_latency_icmp 64 [3, 1, 2] = Inr (Some st) \<and> percentiles_ordered st) \<and>
   (\<exists>st. calculate_stats [3, 1, 2] ''Path 1'' = Inr st \<and> percentiles_ordered st)"
proof -
  have ne: "[3, 1, 2 :: real] \<noteq> []" by simp
  have two: "length [3, 1, 2 :: real] \<ge> 2" by simp
  from C7_percentiles_ordered[OF ne, of 64 "''Path 1''"] two ne show ?thesis by blast
qed

section \<open>A single sample\<close>

text \<open>
  Claim C9. With exactly one sample \<open>test_latency_icmp\<close> returns 0 for \<open>stddev\<close> and for
  \<open>jitter\<close>, as the claim says. \<open>calculate_stats\<close> calls \<^verbatim>\<open>statistics.stdev\<close> without
  the test on the length that its sibling makes, and raises \<^verbatim>\<open>StatisticsError\<close>.
\<close>

theorem C9_single_sample:
  "calculate_stats [x] lbl = Inl StatisticsError \<and>
   (\<exists>st. test_latency_icmp fs [x] = Inr (Some st) \<and> st_stddev st = 0 \<and> st_jitter st = 0)"
  by (simp add: calculate_stats_def test_latency_icmp_def py_min_def py_max_def py_mean_def
      py_median_def py_stdev_def percentile_def py_int_def py_get_def Let_def)

section \<open>Paths of unequal length\<close>

text \<open>
  Claim C5, as stated, fails: for paths of two and of one sample the selection returns
  a list, no error.
\<close>

theorem C5_counterexample:
  "length [1, 2 :: real] \<noteq> length [3 :: real] \<and> calculate_frer_latencies [1, 2] [3] = [1]"
  by (simp add: calculate_frer_latencies_def)

text \<open>
  Claim C5, amended. \<open>calculate_frer_latencies\<close> never fails: the result has the length
  of the shorter path and holds, at each of its positions, the smaller of the two samples;
  what the longer path has beyond that is dropped.
\<close>

theorem C5_shorter_path_decides:
  "calculate_frer_latencies path1 path2 =
     map (\<lambda>i. min (path1 ! i) (path2 ! i)) [0..<min (length path1) (length path2)]"
  by (rule nth_equalityI) (simp_all add: calculate_frer_latencies_def)

section \<open>Sequence analysis: what is counted\<close>

lemma parse_s1: "parse_tag pkt_s1_q7 = Some (61889, 1, 7)"
  by (simp add: parse_tag_def pkt_s1_q7_def unpack_HHI_def)

lemma parse_s2: "parse_tag pkt_s2_q7 = Some (61889, 2, 7)"
  by (simp add: parse_tag_def pkt_s2_q7_def unpack_HHI_def)

lemma parse_un: "parse_tag pkt_untagged = None"
  by (simp add: parse_tag_def pkt_untagged_def)

lemma analyze_step_untagged: "seq_of pkt = None \<Longrightarrow> analyze_step pkt s = s"
  by (simp add: analyze_step_def seq_of_def split: option.splits)

lemma analyze_step_tagged:
  "seq_of pkt = Some q \<Longrightarrow>
   unique_seq (analyze_step pkt s) = insert q (unique_seq s) \<and>
   duplicates (analyze_step pkt s) = (if q \<in> unique_seq s then duplicates s + 1 else duplicates s)"
  by (auto simp: analyze_step_def seq_of_def Let_def split: option.splits)

lemma seen_in_snoc:
  "seen_in (pkts @ [p]) = (case seq_of p of None \<Rightarrow> seen_in pkts | Some q \<Rightarrow> insert q (seen_in pkts))"
  by (auto simp: seen_in_def split: option.splits)

lemma finite_repeats [simp]: "finite (repeats pkts)"
  by (simp add: repeats_def)

lemma repeats_snoc:
  "repeats (pkts @ [p]) =
     (if \<exists>q. seq_of p = Some q \<and> q \<in> seen_in pkts then insert (length pkts) (repeats pkts)
      else repeats pkts)"
proof -
  have in_seen: "\<And>q. q \<in> seen_in pkts \<longleftrightarrow> (\<exists>j<length pkts. seq_of (pkts ! j) = Some q)"
    by (auto simp: seen_in_def in_set_conv_nth Bex_def)
  have old: "(i \<in> repeats (pkts @ [p])) = (i \<in> repeats pkts)" if "i < length pkts" for i
  proof -
    have a: "(pkts @ [p]) ! i = pkts ! i" using that by (simp add: nth_append)
    have b: "\<And>j. j < i \<Longrightarrow> (pkts @ [p]) ! j = pkts ! j" using that by (simp add: nth_append)
    show ?thesis using that by (simp add: repeats_def a b cong: conj_cong)
  qed
  have new: "(length pkts \<in> repeats (pkts @ [p])) = (\<exists>q. seq_of p = Some q \<and> q \<in> seen_in pkts)"
    by (auto simp: repeats_def nth_append in_seen)
  have bound: "\<And>i. i \<in> repeats (pkts @ [p]) \<Longrightarrow> i < Suc (length pkts)"
    by (simp add: repeats_def)
  have bound': "\<And>i. i \<in> repeats pkts \<Longrightarrow> i < length pkts"
    by (simp add: repeats_def)
  show ?thesis
  proof (cases "\<exists>q. seq_of p = Some q \<and> q \<in> seen_in pkts")
    case True
    then have "length pkts \<in> repeats (pkts @ [p])" using new by simp
    then show ?thesis using True old bound bound' by (auto simp: less_Suc_eq)
  next
    case False
    then have "length pkts \<notin> repeats (pkts @ [p])" using new by simp
    then show ?thesis using False old bound bound' 
      by (auto simp: less_Suc_eq)
  qed
qed

lemma fold_analyze:
  "unique_seq (fold analyze_step pkts seq_init) = seen_in pkts \<and>
   duplicates (fold analyze_step pkts seq_init) = card (repeats pkts)"
proof (induction pkts rule: rev_induct)
  case Nil
  show ?case by (simp add: seq_init_def seen_in_def repeats_def)
next
  case (snoc p pkts)
  define s where "s = fold analyze_step pkts seq_init"
  from snoc have u: "unique_seq s = seen_in pkts" and d: "duplicates s = card (repeats pkts)"
    by (simp_all add: s_def)
  have notin: "length pkts \<notin> repeats pkts" by (simp add: repeats_def)
  show ?case
  proof (cases "seq_of p")
    case None
    then show ?thesis
      using u d by (simp add: s_def[symmetric] analyze_step_untagged seen_in_snoc repeats_snoc)
  next
    case (Some q)
    then show ?thesis
      using u d notin analyze_step_tagged[OF Some, of s]
      by (simp add: s_def[symmetric] seen_in_snoc repeats_snoc)
  qed
qed


lemma finite_seen_in [simp]: "finite (seen_in pkts)"
  by (induction pkts rule: rev_induct) (simp_all add: seen_in_def[of "[]"] seen_in_snoc split: option.splits)

lemma tagged_seq_of: "tagged pkt \<longleftrightarrow> seq_of pkt \<noteq> None"
  by (simp add: tagged_def seq_of_def)

lemma card_seen_repeats:
  "card (seen_in pkts) + card (repeats pkts) = length (filter tagged pkts)"
proof (induction pkts rule: rev_induct)
  case Nil
  show ?case by (simp add: seen_in_def repeats_def)
next
  case (snoc p pkts)
  have notin: "length pkts \<notin> repeats pkts" by (simp add: repeats_def)
  show ?case
  proof (cases "seq_of p")
    case None
    with snoc show ?thesis by (simp add: seen_in_snoc repeats_snoc tagged_seq_of)
  next
    case (Some q)
    show ?thesis
    proof (cases "q \<in> seen_in pkts")
      case True
      then have "insert q (seen_in pkts) = seen_in pkts" by auto
      with snoc Some True notin show ?thesis
        by (simp add: seen_in_snoc repeats_snoc tagged_seq_of)
    next
      case False
      with snoc Some show ?thesis
        by (simp add: seen_in_snoc repeats_snoc tagged_seq_of)
    qed
  qed
qed

lemma analyze_step_seq_of:
  "seq_of p = seq_of p' \<Longrightarrow> analyze_step p s = analyze_step p' s"
  by (auto simp: analyze_step_def seq_of_def Let_def split: option.splits)

lemma fold_analyze_seq_of:
  "map seq_of pkts = map seq_of pkts' \<Longrightarrow> fold analyze_step pkts s = fold analyze_step pkts' s"
proof (induction pkts arbitrary: pkts' s)
  case Nil
  then show ?case by simp
next
  case (Cons p pkts)
  then obtain p' rest where r: "pkts' = p' # rest" by (cases pkts') auto
  with Cons.prems have "seq_of p = seq_of p'" "map seq_of pkts = map seq_of rest" by simp_all
  then show ?case using Cons.IH[of rest] r by (simp add: analyze_step_seq_of[of p p'])
qed

text \<open>
  Claim C4, as stated, fails: for a capture of one untagged packet the result has
  \<open>total_packets = 1\<close> and \<open>unique_packets + duplicates = 0\<close>.
\<close>

theorem C4_counterexample:
  "total_packets (analyze_pcap [pkt_untagged]) = 1 \<and>
   unique_packets (analyze_pcap [pkt_untagged]) + a_duplicates (analyze_pcap [pkt_untagged]) = 0"
  by (simp add: analyze_pcap_def analyze_step_def seq_init_def parse_un Let_def)

text \<open>
  Claim C4, amended. In every result \<open>unique_packets + duplicates\<close> is the number of the
  tagged records of the capture, and \<open>total_packets\<close> is the number of all its packets,
  the untagged ones included; a packet that is not tagged leaves the state of the
  analysis as it is, and the analysis goes on.
\<close>

theorem C4_tagged_counted:
  "unique_packets (analyze_pcap packets) + a_duplicates (analyze_pcap packets)
     = length (filter tagged packets) \<and>
   total_packets (analyze_pcap packets) = length packets \<and>
   (\<not> tagged pkt \<longrightarrow> analyze_step pkt s = s)"
  using card_seen_repeats[of packets] fold_analyze[of packets] analyze_step_untagged[of pkt s]
  by (simp add: analyze_pcap_def Let_def tagged_seq_of)

theorem C4_witness:
  "\<not> tagged pkt_untagged \<and> analyze_step pkt_untagged seq_init = seq_init \<and>
   unique_packets (analyze_pcap [pkt_s1_q7, pkt_untagged, pkt_s2_q7])
     + a_duplicates (analyze_pcap [pkt_s1_q7, pkt_untagged, pkt_s2_q7]) = 2 \<and>
   total_packets (analyze_pcap [pkt_s1_q7, pkt_untagged, pkt_s2_q7]) = 3"
  using C4_tagged_counted[of "[pkt_s1_q7, pkt_untagged, pkt_s2_q7]" pkt_untagged seq_init]
  by (simp add: tagged_def parse_s1 parse_s2 parse_un)

text \<open>
  Claim C10. The number of duplicates is the number of positions whose sequence number
  has occurred at an earlier position, whatever the streams of the two records are; and
  two captures with the same sequence numbers at the same positions have the same
  analysis.
\<close>

theorem C10_duplicates_by_sequence_number:
  "a_duplicates (analyze_pcap pkts) = card (repeats pkts) \<and>
   (map seq_of pkts = map seq_of pkts' \<longrightarrow> analyze_pcap pkts = analyze_pcap pkts')"
proof -
  have "map seq_of pkts = map seq_of pkts' \<Longrightarrow> length pkts = length pkts'"
    by (metis length_map)
  then show ?thesis
    using fold_analyze[of pkts] fold_analyze_seq_of[of pkts pkts' seq_init]
    by (auto simp: analyze_pcap_def Let_def)
qed

theorem C10_witness:
  "stream_of pkt_s1_q7 = Some 1 \<and> stream_of pkt_s2_q7 = Some 2 \<and>
   map seq_of [pkt_s1_q7, pkt_s2_q7] = map seq_of [pkt_s1_q7, pkt_s1_q7] \<and>
   analyze_pcap [pkt_s1_q7, pkt_s2_q7] = analyze_pcap [pkt_s1_q7, pkt_s1_q7] \<and>
   a_duplicates (analyze_pcap [pkt_s1_q7, pkt_s2_q7]) = 1"
proof -
  have m: "map seq_of [pkt_s1_q7, pkt_s2_q7] = map seq_of [pkt_s1_q7, pkt_s1_q7]"
    by (simp add: seq_of_def parse_s1 parse_s2)
  have d: "a_duplicates (analyze_pcap [pkt_s1_q7, pkt_s2_q7]) = 1"
    by (simp add: analyze_pcap_def analyze_step_def seq_init_def parse_s1 parse_s2 Let_def)
  from C10_duplicates_by_sequence_number[of "[pkt_s1_q7, pkt_s2_q7]" "[pkt_s1_q7, pkt_s1_q7]"] m d
  show ?thesis by (simp add: stream_of_def parse_s1 parse_s2)
qed

section \<open>Burst capacity: the trials\<close>

text \<open>
  One scan of the candidates that starts from \<open>best_burst = 0\<close> gives what the
  specification describes. A scan that starts from a larger \<open>best_burst\<close> gives the
  larger of that value and of what the specification describes.
\<close>

lemma trial_result_spec_ge:
  "\<forall>c \<in> set cs. passed \<le> c \<Longrightarrow> sorted cs \<Longrightarrow> passed \<le> trial_result_spec prb cs passed"
proof (induction cs arbitrary: passed)
  case Nil
  then show ?case by simp
next
  case (Cons c cs)
  from Cons.prems have pc: "passed \<le> c" and srt: "sorted cs" and cle: "\<forall>x \<in> set cs. c \<le> x"
    by auto
  from Cons.IH[OF cle srt] pc have "passed \<le> trial_result_spec prb cs c" by simp
  then show ?case by (simp split: option.splits)
qed

lemma scan_bursts_running_max:
  "sorted cs \<Longrightarrow> \<forall>c \<in> set cs. passed \<le> c \<Longrightarrow> passed \<le> best \<Longrightarrow>
   scan_bursts prb cs best = max best (trial_result_spec prb cs passed)"
proof (induction cs arbitrary: passed best)
  case Nil
  then show ?case by simp
next
  case (Cons c cs)
  from Cons.prems have srt: "sorted cs" and cle: "\<forall>x \<in> set cs. c \<le> x" by auto
  have ge: "c \<le> trial_result_spec prb cs c" by (rule trial_result_spec_ge[OF cle srt])
  have "scan_bursts prb cs (max best c) = max (max best c) (trial_result_spec prb cs c)"
    by (rule Cons.IH[OF srt cle]) simp
  with ge have "scan_bursts prb cs (max best c) = max best (trial_result_spec prb cs c)"
    by simp
  with Cons.prems(3) show ?case by (auto split: option.splits)
qed

lemma first_trial_as_specified:
  "scan_bursts prb test_bursts 0 = trial_result_spec prb test_bursts 0"
  using scan_bursts_running_max[of test_bursts 0 0 prb]
  by (simp add: test_bursts_def)

lemma later_trial_carries_over:
  "scan_bursts prb test_bursts best = max best (trial_result_spec prb test_bursts 0)"
  using scan_bursts_running_max[of test_bursts 0 best prb]
  by (simp add: test_bursts_def)

lemma scan0: "scan_bursts (probe_burst 0) test_bursts 0 = 1000"
  by (simp add: probe_burst_def test_bursts_def)

lemma scan_later: "trial > 0 \<Longrightarrow> scan_bursts (probe_burst trial) test_bursts b = b"
  by (simp add: probe_burst_def test_bursts_def)

lemma trials3: "run_trials probe_burst [0..<3] 0 [] = [(1, 1000), (2, 1000), (3, 1000)]"
  by (simp add: upt_rec scan0 scan_later Let_def)

text \<open>
  Claim C6. \<open>best_burst\<close> is set to 0 once, before the loop over the trials, so the trials
  are not independent runs: with a device that takes 1000 frames in the first trial and
  fails the first candidate in the second and the third, the code records 1000 for all
  three trials and reports \<open>max_burst_no_loss = 1000\<close>, where the claim has the results
  1000, 0, 0 and their minimum 0.
\<close>

theorem C6_trials_share_best_burst:
  "back_to_back_test 64 3 probe_burst =
     Inr \<lparr>b_frame_size = 64, b_trials = [(1, 1000), (2, 1000), (3, 1000)],
          max_burst_no_loss = 1000, avg_burst = Some 1000, std_burst = Some 0\<rparr> \<and>
   trial_result_spec (probe_burst 0) test_bursts 0 = 1000 \<and>
   trial_result_spec (probe_burst 1) test_bursts 0 = 0 \<and>
   trial_result_spec (probe_burst 2) test_bursts 0 = 0 \<and>
   max_burst_spec probe_burst 3 = 0"
proof -
  have "back_to_back_test 64 3 probe_burst =
     Inr \<lparr>b_frame_size = 64, b_trials = [(1, 1000), (2, 1000), (3, 1000)],
          max_burst_no_loss = 1000, avg_burst = Some 1000, std_burst = Some 0\<rparr>"
    by (simp add: back_to_back_test_def trials3 Let_def py_mean_def py_stdev_def)
  moreover have "trial_result_spec (probe_burst 0) test_bursts 0 = 1000"
    by (simp add: probe_burst_def test_bursts_def)
  moreover have "trial_result_spec (probe_burst 1) test_bursts 0 = 0"
    by (simp add: probe_burst_def test_bursts_def)
  moreover have "trial_result_spec (probe_burst 2) test_bursts 0 = 0"
    by (simp add: probe_burst_def test_bursts_def)
  moreover have "max_burst_spec probe_burst 3 = 0"
    by (simp add: max_burst_spec_def probe_burst_def test_bursts_def upt_rec)
  ultimately show ?thesis by simp
qed

section \<open>Rate search: invariants of binary\_search\_throughput\<close>

lemma bs_body_iterations [simp]: "iterations (bs_body prb s) = Suc (iterations s)"
  by (simp add: bs_body_def Let_def split: option.splits)

lemma current_mbps_iterations [simp]: "current_mbps (s\<lparr>iterations := n\<rparr>) = current_mbps s"
  by (simp add: current_mbps_def)

lemma bs_body_cases:
  "(bs_body prb s = s\<lparr>iterations := Suc (iterations s), max_mbps := current_mbps s\<rparr>) \<or>
   (bs_body prb s = s\<lparr>iterations := Suc (iterations s), min_mbps := current_mbps s,
                       best_throughput := current_mbps s\<rparr>)"
  by (simp add: bs_body_def Let_def split: option.splits)

lemma bs_body_fail:
  "prb (Suc (iterations s)) (current_mbps s) = None \<Longrightarrow>
   bs_body prb s = s\<lparr>iterations := Suc (iterations s), max_mbps := current_mbps s\<rparr>"
  by (simp add: bs_body_def Let_def)

lemma bs_guard_inv:
  assumes "bs_inv s"
  shows "bs_guard s = Inr ((max_mbps s - min_mbps s) / max_mbps s > tolerance \<and>
                            iterations s < max_iterations)"
proof -
  from assms have "max_mbps s \<noteq> 0" by (simp add: bs_inv_def)
  then show ?thesis by (simp add: bs_guard_def py_div_def)
qed

lemma bs_inv_init: "bs_inv bs_init"
  by (simp add: bs_inv_def bs_init_def max_iterations_def)

lemma bs_inv_body:
  assumes inv: "bs_inv s" and g: "bs_guard s = Inr True"
  shows "bs_inv (bs_body prb s)"
proof -
  from g inv have it: "iterations s < max_iterations"
    by (simp add: bs_guard_inv)
  from inv have b: "min_mbps s \<le> current_mbps s" "current_mbps s \<le> max_mbps s"
    by (simp_all add: bs_inv_def current_mbps_def)
  from bs_body_cases[of prb s] show ?thesis
  proof
    assume "bs_body prb s = s\<lparr>iterations := Suc (iterations s), max_mbps := current_mbps s\<rparr>"
    with inv it b show ?thesis by (auto simp: bs_inv_def)
  next
    assume "bs_body prb s = s\<lparr>iterations := Suc (iterations s), min_mbps := current_mbps s,
                       best_throughput := current_mbps s\<rparr>"
    with inv it b show ?thesis by (auto simp: bs_inv_def)
  qed
qed

lemma bs_reach_inv: "bs_reach prb s \<Longrightarrow> bs_inv s"
  by (induction rule: bs_reach.induct) (simp_all add: bs_inv_init bs_inv_body)

lemma bs_best_mono:
  assumes inv: "bs_inv s"
  shows "best_throughput s \<le> best_throughput (bs_body prb s)"
proof -
  from inv have "best_throughput s \<le> current_mbps s"
    by (auto simp: bs_inv_def current_mbps_def)
  with bs_body_cases[of prb s] show ?thesis by auto
qed

lemma bs_body_halves:
  "max_mbps (bs_body prb s) - min_mbps (bs_body prb s) = (max_mbps s - min_mbps s) / 2 \<and>
   (min_mbps (bs_body prb s) = current_mbps s \<and> max_mbps (bs_body prb s) = max_mbps s \<or>
    max_mbps (bs_body prb s) = current_mbps s \<and> min_mbps (bs_body prb s) = min_mbps s)"
  using bs_body_cases[of prb s] by (auto simp: current_mbps_def field_simps)

lemma bs_loop_total:
  assumes "bs_reach prb s"
  shows "\<exists>r. bs_loop prb s = Inr r \<and> bs_reach prb r \<and> bs_guard r = Inr False"
  using assms
proof (induction prb s rule: bs_loop.induct)
  case (1 prb s)
  from "1.prems" have inv: "bs_inv s" by (rule bs_reach_inv)
  show ?case
  proof (cases "(max_mbps s - min_mbps s) / max_mbps s > tolerance \<and> iterations s < max_iterations")
    case True
    with inv have g: "bs_guard s = Inr True" by (simp add: bs_guard_inv)
    with "1.prems" have "bs_reach prb (bs_body prb s)" by (rule bs_round)
    with "1.IH"[OF g] have "\<exists>r. bs_loop prb (bs_body prb s) = Inr r \<and> bs_reach prb r \<and> bs_guard r = Inr False"
      by simp
    with g show ?thesis by (simp add: bs_loop.simps[of prb s])
  next
    case False
    with inv have g: "bs_guard s = Inr False" by (simp add: bs_guard_inv)
    with "1.prems" show ?thesis by (simp add: bs_loop.simps[of prb s])
  qed
qed

lemma bs_observed:
  "bs_reach prb s \<Longrightarrow>
   best_throughput s = 0 \<or> observed_passing prb (iterations s) (best_throughput s)"
proof (induction rule: bs_reach.induct)
  case bs_start
  show ?case by (simp add: bs_init_def)
next
  case (bs_round s)
  have widen: "observed_passing prb (iterations s) r \<Longrightarrow> observed_passing prb (Suc (iterations s)) r" for r
    by (auto simp: observed_passing_def)
  show ?case
  proof (cases "prb (Suc (iterations s)) (current_mbps s)")
    case None
    with bs_round.IH widen show ?thesis by (auto simp: bs_body_fail)
  next
    case (Some loss)
    show ?thesis
    proof (cases "loss < zero_loss_threshold")
      case True
      with Some have "observed_passing prb (Suc (iterations s)) (current_mbps s)"
        by (auto simp: observed_passing_def)
      with Some True show ?thesis by (simp add: bs_body_def Let_def)
    next
      case False
      with Some bs_round.IH widen show ?thesis by (auto simp: bs_body_def Let_def)
    qed
  qed
qed


lemma on_grid_init: "on_grid bs_init"
  unfolding on_grid_def by (rule exI[of _ 0]) (simp add: bs_init_def)

lemma on_grid_body:
  assumes "on_grid s"
  shows "on_grid (bs_body prb s)"
proof -
  from assms obtain j :: nat where
    lo: "min_mbps s = 1 + 999 * real j / 2 ^ iterations s" and
    hi: "max_mbps s = 1 + 999 * (real j + 1) / 2 ^ iterations s"
    by (auto simp: on_grid_def)
  have mid: "current_mbps s = 1 + 999 * (real (2 * j) + 1) / 2 ^ Suc (iterations s)"
    by (simp add: current_mbps_def lo hi field_simps)
  have lo': "min_mbps s = 1 + 999 * real (2 * j) / 2 ^ Suc (iterations s)"
    by (simp add: lo)
  have hi': "max_mbps s = 1 + 999 * (real (2 * j + 1) + 1) / 2 ^ Suc (iterations s)"
    by (simp add: hi field_simps)
  from bs_body_cases[of prb s] show ?thesis
  proof
    assume "bs_body prb s = s\<lparr>iterations := Suc (iterations s), max_mbps := current_mbps s\<rparr>"
    then show ?thesis
      unfolding on_grid_def using lo' mid by (intro exI[of _ "2 * j"]) simp
  next
    assume "bs_body prb s = s\<lparr>iterations := Suc (iterations s), min_mbps := current_mbps s,
                       best_throughput := current_mbps s\<rparr>"
    then show ?thesis
      unfolding on_grid_def using hi' mid by (intro exI[of _ "2 * j + 1"]) simp
  qed
qed

lemma bs_reach_on_grid: "bs_reach prb s \<Longrightarrow> on_grid s"
  by (induction rule: bs_reach.induct) (simp_all add: on_grid_init on_grid_body)

lemma not_3_dvd_pow2: "\<not> (3::nat) dvd 2 ^ k"
proof (induction k)
  case 0
  show ?case by simp
next
  case (Suc k)
  have h: "(3::nat) dvd 2 * x \<Longrightarrow> 3 dvd x" for x by presburger
  show ?case
  proof
    assume "(3::nat) dvd 2 ^ Suc k"
    then have "(3::nat) dvd 2 * 2 ^ k" by simp
    then have "(3::nat) dvd 2 ^ k" by (rule h)
    with Suc show False by contradiction
  qed
qed

lemma on_grid_no_tie:
  assumes "on_grid s"
  shows "(max_mbps s - min_mbps s) / max_mbps s \<noteq> tolerance"
proof
  assume eq: "(max_mbps s - min_mbps s) / max_mbps s = tolerance"
  define k where "k = iterations s"
  from assms obtain j :: nat where
    lo: "min_mbps s = 1 + 999 * real j / 2 ^ k" and
    hi: "max_mbps s = 1 + 999 * (real j + 1) / 2 ^ k"
    by (auto simp: on_grid_def k_def)
  have hpos: "max_mbps s > 0" unfolding hi by (simp add: add_pos_nonneg)
  have w: "max_mbps s - min_mbps s = 999 / 2 ^ k" by (simp add: lo hi field_simps)
  from eq hpos have "100 * (max_mbps s - min_mbps s) = max_mbps s"
    by (simp add: tolerance_def field_simps)
  then have "100 * (999 / 2 ^ k) = max_mbps s" by (simp only: w)
  then have "100 * (999 / 2 ^ k) = 1 + 999 * (real j + 1) / (2::real) ^ k"
    by (simp only: hi)
  then have "(99900::real) = 2 ^ k + 999 * (real j + 1)"
    by (simp add: field_simps)
  then have "real (99900::nat) = real (2 ^ k + 999 * (j + 1))" by simp
  then have n: "(99900::nat) = 2 ^ k + 999 * (j + 1)" by (simp only: of_nat_eq_iff)
  have d: "(3::nat) dvd 99900" by simp
  have "(3::nat) dvd 2 ^ k + 999 * (j + 1)" using d unfolding n .
  moreover have "(3::nat) dvd 999 * (j + 1)" by simp
  ultimately have "(3::nat) dvd 2 ^ k" by (simp only: dvd_add_left_iff)
  with not_3_dvd_pow2 show False by blast
qed

lemma bs_guard_exit:
  assumes "bs_reach prb s"
  shows "bs_guard s = Inr (\<not> exit_spec s)"
proof -
  define q where "q = (max_mbps s - min_mbps s) / max_mbps s"
  from assms have inv: "bs_inv s" by (rule bs_reach_inv)
  from assms have "on_grid s" by (rule bs_reach_on_grid)
  then have tie: "q \<noteq> tolerance" unfolding q_def by (rule on_grid_no_tie)
  from inv have le: "iterations s \<le> max_iterations" by (simp add: bs_inv_def)
  have g: "bs_guard s = Inr (q > tolerance \<and> iterations s < max_iterations)"
    unfolding q_def by (rule bs_guard_inv[OF inv])
  have e: "exit_spec s \<longleftrightarrow> q < tolerance \<or> iterations s = max_iterations"
    unfolding q_def by (rule exit_spec_def)
  from tie le have "(q > tolerance \<and> iterations s < max_iterations) \<longleftrightarrow>
      \<not> (q < tolerance \<or> iterations s = max_iterations)" by auto
  with g e show ?thesis by simp
qed

section \<open>Rate search: invariants of test\_rfc2544\_throughput\<close>

lemma tr_body_fail:
  "prb i (test_rate s) = None \<Longrightarrow>
   tr_body prb i s = Inr (s\<lparr>iteration_log := iteration_log s @ [Errored (test_rate s)]\<rparr>, False)"
  by (simp add: tr_body_def Let_def)

lemma tr_inv_init: "tr_inv tr_init"
  by (simp add: tr_inv_def tr_init_def)

lemma tr_body_inv:
  assumes inv: "tr_inv s"
  shows "\<exists>s' brk. tr_body prb i s = Inr (s', brk) \<and> tr_inv s' \<and> best_rate s \<le> best_rate s'"
proof -
  from inv have b: "min_rate s \<le> test_rate s" "test_rate s \<le> max_rate s" "1 \<le> test_rate s"
    "best_rate s \<le> test_rate s"
    by (auto simp: tr_inv_def test_rate_def)
  show ?thesis
  proof (cases "prb i (test_rate s)")
    case None
    with inv show ?thesis by (auto simp: tr_body_fail tr_inv_def)
  next
    case (Some a)
    obtain loss actual where a: "a = (loss, actual)" by (cases a)
    show ?thesis
    proof (cases "loss < 1 / 1000")
      case True
      with Some a inv b show ?thesis
        by (simp add: tr_body_def Let_def py_div_def tr_inv_def)
    next
      case False
      with Some a inv b show ?thesis
        by (simp add: tr_body_def Let_def py_div_def tr_inv_def)
    qed
  qed
qed

lemma tr_reach_inv: "tr_reach prb i b s \<Longrightarrow> tr_inv s"
proof (induction rule: tr_reach.induct)
  case tr_start
  show ?case by (rule tr_inv_init)
next
  case (tr_round i s s' brk)
  with tr_body_inv[of s prb i] show ?case by auto
qed

lemma tr_best_mono:
  assumes "tr_reach prb i False s" and "tr_body prb i s = Inr (s', brk)"
  shows "best_rate s \<le> best_rate s'"
  using tr_body_inv[OF tr_reach_inv[OF assms(1)], of prb i] assms(2) by auto

lemma tr_observed:
  "tr_reach prb i b s \<Longrightarrow> best_rate s = 0 \<or> observed_passing2 prb i (best_rate s)"
proof (induction rule: tr_reach.induct)
  case tr_start
  show ?case by (simp add: tr_init_def)
next
  case (tr_round i s s' brk)
  have widen: "observed_passing2 prb i r \<Longrightarrow> observed_passing2 prb (Suc i) r" for r
    unfolding observed_passing2_def using less_Suc_eq by blast
  show ?case
  proof (cases "prb i (test_rate s)")
    case None
    with tr_round.hyps(3) have "best_rate s' = best_rate s" by (auto simp: tr_body_fail)
    with tr_round.IH widen show ?thesis by auto
  next
    case (Some a)
    obtain loss actual where a: "a = (loss, actual)" by (cases a)
    show ?thesis
    proof (cases "loss < 1 / 1000")
      case True
      with Some a tr_round.hyps(3) have "best_rate s' = test_rate s"
        by (auto simp: tr_body_def Let_def py_div_def bind_err_def split: if_splits)
      moreover from Some a True have "observed_passing2 prb (Suc i) (test_rate s)"
        by (auto simp: observed_passing2_def)
      ultimately show ?thesis by simp
    next
      case False
      with Some a tr_round.hyps(3) have "best_rate s' = best_rate s"
        by (auto simp: tr_body_def Let_def py_div_def bind_err_def split: if_splits)
      with tr_round.IH widen show ?thesis by auto
    qed
  qed
qed

lemma tr_loop_reach:
  assumes "tr_reach prb i False s" and "i \<le> 10"
  shows "\<exists>r j b. tr_loop prb [i..<10] s = Inr r \<and> tr_reach prb j b r"
  using assms
proof (induction "10 - i" arbitrary: i s)
  case 0
  then have "[i..<10] = []" by simp
  with "0.prems"(1) show ?case by auto
next
  case (Suc n)
  then have lt: "i < 10" by simp
  then have upt: "[i..<10] = i # [Suc i..<10]" by (rule upt_conv_Cons)
  from tr_body_inv[OF tr_reach_inv[OF Suc.prems(1)], of prb i]
  obtain s' brk where b: "tr_body prb i s = Inr (s', brk)" by blast
  from Suc.prems(1) lt b have reach': "tr_reach prb (Suc i) brk s'" by (rule tr_round)
  show ?case
  proof (cases brk)
    case True
    with b upt reach' show ?thesis by auto
  next
    case False
    from Suc.hyps(2) have "n = 10 - Suc i" by simp
    moreover from reach' False have "tr_reach prb (Suc i) False s'" by simp
    moreover from lt have "Suc i \<le> 10" by simp
    ultimately have "\<exists>r j b. tr_loop prb [Suc i..<10] s' = Inr r \<and> tr_reach prb j b r"
      by (rule Suc.hyps(1))
    with b upt False show ?thesis by simp
  qed
qed

lemma test_rfc2544_throughput_total:
  "\<exists>r j b. test_rfc2544_throughput prb = Inr r \<and> tr_reach prb j b r"
  unfolding test_rfc2544_throughput_def
  by (rule tr_loop_reach[OF tr_start]) simp


section \<open>Rate search: runs on given probes\<close>

lemma clean_first_round: "bs_guard bs_init = Inr True"
  by (simp add: bs_guard_def py_div_def bs_init_def tolerance_def max_iterations_def)

lemma fail_first_round:
  "bs_body probe_fail bs_init =
     \<lparr>min_mbps = 1, max_mbps = 1001 / 2, best_throughput = 0, iterations = 1\<rparr>"
  by (simp add: bs_body_def probe_fail_def bs_init_def current_mbps_def Let_def)

lemma tr_fail_first_round:
  "tr_body probe2_fail 0 tr_init =
     Inr (\<lparr>min_rate = 1, max_rate = 1000, best_rate = 0, iteration_log = [Errored (1001 / 2)]\<rparr>, False)"
  by (simp add: tr_body_def probe2_fail_def tr_init_def test_rate_def Let_def)

lemma p300_first_round:
  "bs_body probe_300 bs_init =
     \<lparr>min_mbps = 1, max_mbps = 1001 / 2, best_throughput = 0, iterations = 1\<rparr>"
  by (simp add: bs_body_def probe_300_def bs_init_def current_mbps_def zero_loss_threshold_def Let_def)

lemma p300_second_round:
  "bs_body probe_300 (bs_body probe_300 bs_init) =
     \<lparr>min_mbps = 1003 / 4, max_mbps = 1001 / 2, best_throughput = 1003 / 4, iterations = 2\<rparr>"
  unfolding p300_first_round
  by (simp add: bs_body_def probe_300_def current_mbps_def zero_loss_threshold_def Let_def)

lemma tr300_first_round:
  "tr_body probe2_300 0 tr_init =
     Inr (\<lparr>min_rate = 1, max_rate = 1001 / 2, best_rate = 0,
           iteration_log = [Measured (1001 / 2) (1001 / 2) 5]\<rparr>, False)"
  by (simp add: tr_body_def probe2_300_def tr_init_def test_rate_def py_div_def tolerance_def Let_def)

section \<open>Rate search: the claims\<close>

text \<open>
  What a round with a failed probe does, in both searches. In \<open>binary_search_throughput\<close>
  it sets the upper bound to the midpoint just probed and changes neither the lower bound
  nor \<open>best_throughput\<close>, and the search goes on from the state so reached. In
  \<open>test_rfc2544_throughput\<close> it changes neither bound nor \<open>best_rate\<close>: it appends an
  error entry and does not leave the loop. Both searches return a state and raise
  nothing, and in every state of both the best rate is 0 or a rate at which a probe made
  so far has answered with a loss below the threshold.
\<close>

lemma failed_probe_rounds:
  "(bs_reach prb s \<and> bs_guard s = Inr True \<and> prb (Suc (iterations s)) (current_mbps s) = None \<longrightarrow>
      bs_body prb s = s\<lparr>iterations := Suc (iterations s), max_mbps := current_mbps s\<rparr> \<and>
      bs_reach prb (bs_body prb s)) \<and>
   (bs_reach prb s \<longrightarrow>
      best_throughput s = 0 \<or> observed_passing prb (iterations s) (best_throughput s)) \<and>
   (\<exists>r. bs_loop prb bs_init = Inr r \<and> bs_reach prb r \<and>
        binary_search_throughput prb = Inr (best_throughput r)) \<and>
   (prb2 i (test_rate t) = None \<longrightarrow>
      tr_body prb2 i t = Inr (t\<lparr>iteration_log := iteration_log t @ [Errored (test_rate t)]\<rparr>, False)) \<and>
   (tr_reach prb2 i b t \<longrightarrow> best_rate t = 0 \<or> observed_passing2 prb2 i (best_rate t)) \<and>
   (\<exists>r j c. test_rfc2544_throughput prb2 = Inr r \<and> tr_reach prb2 j c r)"
proof (intro conjI impI)
  assume a: "bs_reach prb s \<and> bs_guard s = Inr True \<and> prb (Suc (iterations s)) (current_mbps s) = None"
  then show "bs_body prb s = s\<lparr>iterations := Suc (iterations s), max_mbps := current_mbps s\<rparr>"
    by (simp add: bs_body_fail)
  from a show "bs_reach prb (bs_body prb s)" by (simp add: bs_round)
next
  assume "bs_reach prb s"
  then show "best_throughput s = 0 \<or> observed_passing prb (iterations s) (best_throughput s)"
    by (rule bs_observed)
next
  from bs_loop_total[OF bs_start, of prb] obtain r where
    r: "bs_loop prb bs_init = Inr r" "bs_reach prb r" by blast
  then have "binary_search_throughput prb = Inr (best_throughput r)"
    by (simp add: binary_search_throughput_def)
  with r show "\<exists>r. bs_loop prb bs_init = Inr r \<and> bs_reach prb r \<and>
      binary_search_throughput prb = Inr (best_throughput r)" by blast
next
  assume "prb2 i (test_rate t) = None"
  then show "tr_body prb2 i t = Inr (t\<lparr>iteration_log := iteration_log t @ [Errored (test_rate t)]\<rparr>, False)"
    by (rule tr_body_fail)
next
  assume "tr_reach prb2 i b t"
  then show "best_rate t = 0 \<or> observed_passing2 prb2 i (best_rate t)" by (rule tr_observed)
next
  show "\<exists>r j c. test_rfc2544_throughput prb2 = Inr r \<and> tr_reach prb2 j c r"
    by (rule test_rfc2544_throughput_total)
qed

lemma failed_probe_rounds_at_start:
  "bs_reach probe_fail bs_init \<and> bs_guard bs_init = Inr True \<and>
   probe_fail (Suc (iterations bs_init)) (current_mbps bs_init) = None \<and>
   bs_body probe_fail bs_init =
     \<lparr>min_mbps = 1, max_mbps = 1001 / 2, best_throughput = 0, iterations = 1\<rparr> \<and>
   bs_reach probe_fail (bs_body probe_fail bs_init) \<and>
   probe2_fail 0 (test_rate tr_init) = None \<and>
   tr_reach probe2_fail 0 False tr_init \<and>
   tr_body probe2_fail 0 tr_init =
     Inr (\<lparr>min_rate = 1, max_rate = 1000, best_rate = 0, iteration_log = [Errored (1001 / 2)]\<rparr>, False)"
proof -
  have f: "probe_fail (Suc (iterations bs_init)) (current_mbps bs_init) = None"
    by (simp add: probe_fail_def)
  have f2: "probe2_fail 0 (test_rate tr_init) = None" by (simp add: probe2_fail_def)
  note c1 = failed_probe_rounds[of probe_fail bs_init probe2_fail 0 tr_init False]
  from c1 bs_start[of probe_fail] clean_first_round f
  have "bs_reach probe_fail (bs_body probe_fail bs_init)" by blast
  moreover from c1 f2
  have "tr_body probe2_fail 0 tr_init =
      Inr (tr_init\<lparr>iteration_log := iteration_log tr_init @ [Errored (test_rate tr_init)]\<rparr>, False)"
    by blast
  ultimately show ?thesis
    using f f2 bs_start[of probe_fail] clean_first_round tr_start[of probe2_fail] fail_first_round
    by (simp add: tr_init_def test_rate_def)
qed

text \<open>
  Claim C1. The claim holds for \<open>binary_search_throughput\<close>: its round with a failed
  probe at 500.5 moves the upper bound from 1000 to 500.5. It does not hold for
  \<open>test_rfc2544_throughput\<close>, which its comments call a binary search too: when every
  probe fails, the handler of the exception shrinks nothing, the upper bound stays at
  1000, and all ten rounds probe 500.5. The best rate stays 0 in both.
\<close>

theorem C1_failed_probe_keeps_upper_bound:
  "probe_fail (Suc (iterations bs_init)) (current_mbps bs_init) = None \<and>
   current_mbps bs_init = 1001 / 2 \<and>
   bs_body probe_fail bs_init =
     \<lparr>min_mbps = 1, max_mbps = 1001 / 2, best_throughput = 0, iterations = 1\<rparr> \<and>
   probe2_fail 0 (test_rate tr_init) = None \<and> test_rate tr_init = 1001 / 2 \<and>
   tr_body probe2_fail 0 tr_init =
     Inr (\<lparr>min_rate = 1, max_rate = 1000, best_rate = 0, iteration_log = [Errored (1001 / 2)]\<rparr>, False) \<and>
   test_rfc2544_throughput probe2_fail =
     Inr \<lparr>min_rate = 1, max_rate = 1000, best_rate = 0, iteration_log = replicate 10 (Errored (1001 / 2))\<rparr>"
proof -
  have step: "tr_body probe2_fail i \<lparr>min_rate = 1, max_rate = 1000, best_rate = 0, iteration_log = l\<rparr>
      = Inr (\<lparr>min_rate = 1, max_rate = 1000, best_rate = 0, iteration_log = l @ [Errored (1001 / 2)]\<rparr>, False)"
    for i l
    by (simp add: tr_body_def probe2_fail_def test_rate_def Let_def)
  have "test_rfc2544_throughput probe2_fail =
     Inr \<lparr>min_rate = 1, max_rate = 1000, best_rate = 0, iteration_log = replicate 10 (Errored (1001 / 2))\<rparr>"
    by (simp add: test_rfc2544_throughput_def tr_init_def upt_rec step eval_nat_numeral)
  then show ?thesis
    by (simp add: tr_fail_first_round fail_first_round)
      (simp add: probe2_fail_def probe_fail_def tr_init_def test_rate_def bs_init_def current_mbps_def)
qed

text \<open>
  Claim C2, as stated, fails: the search starts with the lower bound 1 and
  \<open>best_throughput = 0\<close>, and after a round whose probe fails they are still 1 and 0.
\<close>

theorem C2_counterexample:
  "bs_reach probe_fail bs_init \<and> \<not> min_mbps bs_init \<le> best_throughput bs_init \<and>
   bs_reach probe_fail (bs_body probe_fail bs_init) \<and>
   \<not> min_mbps (bs_body probe_fail bs_init) \<le> best_throughput (bs_body probe_fail bs_init)"
proof -
  have "bs_reach probe_fail (bs_body probe_fail bs_init)"
    using bs_start clean_first_round by (rule bs_round)
  then show ?thesis using bs_start[of probe_fail]
    by (simp add: fail_first_round) (simp add: bs_init_def)
qed

text \<open>
  Claim C2, amended. In every state of both searches the lower bound is at most the upper
  bound, the best rate is at most the upper bound and is either 0 or equal to the lower
  bound, and no round makes the best rate smaller.
\<close>

theorem C2_search_invariant:
  "(bs_reach prb s \<longrightarrow>
      min_mbps s \<le> max_mbps s \<and> best_throughput s \<le> max_mbps s \<and>
      (best_throughput s = 0 \<or> best_throughput s = min_mbps s)) \<and>
   (bs_reach prb s \<and> bs_guard s = Inr True \<longrightarrow>
      best_throughput s \<le> best_throughput (bs_body prb s)) \<and>
   (tr_reach prb2 i b t \<longrightarrow>
      min_rate t \<le> max_rate t \<and> best_rate t \<le> max_rate t \<and>
      (best_rate t = 0 \<or> best_rate t = min_rate t)) \<and>
   (tr_reach prb2 i False t \<and> tr_body prb2 i t = Inr (t', brk) \<longrightarrow> best_rate t \<le> best_rate t')"
proof (intro conjI impI)
  assume "bs_reach prb s"
  then have "bs_inv s" by (rule bs_reach_inv)
  then show "min_mbps s \<le> max_mbps s" "best_throughput s \<le> max_mbps s"
    "best_throughput s = 0 \<or> best_throughput s = min_mbps s"
    by (simp_all add: bs_inv_def)
next
  assume "bs_reach prb s \<and> bs_guard s = Inr True"
  then have "bs_inv s" by (blast intro: bs_reach_inv)
  then show "best_throughput s \<le> best_throughput (bs_body prb s)" by (rule bs_best_mono)
next
  assume "tr_reach prb2 i b t"
  then have "tr_inv t" by (rule tr_reach_inv)
  then show "min_rate t \<le> max_rate t" "best_rate t \<le> max_rate t"
    "best_rate t = 0 \<or> best_rate t = min_rate t"
    by (simp_all add: tr_inv_def)
next
  assume "tr_reach prb2 i False t \<and> tr_body prb2 i t = Inr (t', brk)"
  then show "best_rate t \<le> best_rate t'" using tr_best_mono[of prb2 i t t' brk] by simp
qed

theorem C2_witness:
  "bs_reach probe_300 (bs_body probe_300 bs_init) \<and>
   bs_guard (bs_body probe_300 bs_init) = Inr True \<and>
   best_throughput (bs_body probe_300 bs_init) = 0 \<and>
   best_throughput (bs_body probe_300 (bs_body probe_300 bs_init)) = 1003 / 4 \<and>
   min_mbps (bs_body probe_300 bs_init) \<le> max_mbps (bs_body probe_300 bs_init) \<and>
   tr_reach probe2_300 0 False tr_init \<and>
   tr_body probe2_300 0 tr_init =
     Inr (\<lparr>min_rate = 1, max_rate = 1001 / 2, best_rate = 0,
           iteration_log = [Measured (1001 / 2) (1001 / 2) 5]\<rparr>, False) \<and>
   best_rate tr_init \<le> 0"
proof -
  let ?s1 = "bs_body probe_300 bs_init"
  have r1: "bs_reach probe_300 ?s1" using bs_start clean_first_round by (rule bs_round)
  have g1: "bs_guard ?s1 = Inr True"
    by (simp add: p300_first_round bs_guard_def py_div_def tolerance_def max_iterations_def)
  note c2 = C2_search_invariant[of probe_300 ?s1 probe2_300 0 False tr_init
      "\<lparr>min_rate = 1, max_rate = 1001 / 2, best_rate = 0,
        iteration_log = [Measured (1001 / 2) (1001 / 2) 5]\<rparr>" False]
  from c2 r1 have "min_mbps ?s1 \<le> max_mbps ?s1" by blast
  moreover from c2 tr_start[of probe2_300] tr300_first_round
  have "best_rate tr_init \<le> 0" by simp
  ultimately show ?thesis
    using r1 g1 tr_start[of probe2_300] tr300_first_round
    by (simp add: p300_second_round) (simp add: p300_first_round)
qed

text \<open>
  Claim C8. With a probe that never fails, every round of \<open>binary_search_throughput\<close>
  halves the window, by moving the lower or the upper bound to the midpoint; in every
  state the condition of the loop holds exactly when \<open>(high-low)/high < tolerance\<close> and
  \<open>iterations = max_iterations\<close> are both false (the quotient is never equal to the
  tolerance); and the loop ends, in a state where one of the two is true.
\<close>

theorem C8_halving_and_exit:
  assumes never_fails: "\<forall>k r. prb k r \<noteq> None"
  shows "(bs_reach prb s \<and> bs_guard s = Inr True \<longrightarrow>
            max_mbps (bs_body prb s) - min_mbps (bs_body prb s) = (max_mbps s - min_mbps s) / 2 \<and>
            (min_mbps (bs_body prb s) = current_mbps s \<and> max_mbps (bs_body prb s) = max_mbps s \<or>
             max_mbps (bs_body prb s) = current_mbps s \<and> min_mbps (bs_body prb s) = min_mbps s)) \<and>
         (bs_reach prb s \<longrightarrow> bs_guard s = Inr (\<not> exit_spec s)) \<and>
         (\<exists>r. bs_loop prb bs_init = Inr r \<and> bs_reach prb r \<and> exit_spec r)"
proof (intro conjI impI)
  show "max_mbps (bs_body prb s) - min_mbps (bs_body prb s) = (max_mbps s - min_mbps s) / 2"
    using bs_body_halves[of prb s] by (rule conjunct1)
  show "min_mbps (bs_body prb s) = current_mbps s \<and> max_mbps (bs_body prb s) = max_mbps s \<or>
        max_mbps (bs_body prb s) = current_mbps s \<and> min_mbps (bs_body prb s) = min_mbps s"
    using bs_body_halves[of prb s] by (rule conjunct2)
  show "bs_guard s = Inr (\<not> exit_spec s)" if "bs_reach prb s"
    using that by (rule bs_guard_exit)
  from bs_loop_total[OF bs_start, of prb] obtain r where
    r: "bs_loop prb bs_init = Inr r" "bs_reach prb r" "bs_guard r = Inr False" by blast
  from r(2) have "bs_guard r = Inr (\<not> exit_spec r)" by (rule bs_guard_exit)
  with r(3) have "exit_spec r" by simp
  with r show "\<exists>r. bs_loop prb bs_init = Inr r \<and> bs_reach prb r \<and> exit_spec r" by blast
qed

theorem C8_witness:
  "(\<forall>k r. probe_clean k r \<noteq> None) \<and> bs_reach probe_clean bs_init \<and> bs_guard bs_init = Inr True \<and>
   max_mbps (bs_body probe_clean bs_init) - min_mbps (bs_body probe_clean bs_init) = 999 / 2 \<and>
   \<not> exit_spec bs_init \<and>
   (\<exists>r. bs_loop probe_clean bs_init = Inr r \<and> bs_reach probe_clean r \<and> exit_spec r)"
proof -
  have nf: "\<forall>k r. probe_clean k r \<noteq> None" by (simp add: probe_clean_def)
  have w: "(max_mbps bs_init - min_mbps bs_init) / 2 = 999 / 2" by (simp add: bs_init_def)
  note c8 = C8_halving_and_exit[OF nf, of bs_init]
  from c8 bs_start[of probe_clean] clean_first_round
  have "max_mbps (bs_body probe_clean bs_init) - min_mbps (bs_body probe_clean bs_init)
        = (max_mbps bs_init - min_mbps bs_init) / 2" by blast
  moreover from c8 bs_start[of probe_clean] clean_first_round have "\<not> exit_spec bs_init" by simp
  moreover from c8 have "\<exists>r. bs_loop probe_clean bs_init = Inr r \<and> bs_reach probe_clean r \<and> exit_spec r"
    by blast
  ultimately show ?thesis using nf bs_start[of probe_clean] clean_first_round w by simp
qed

end
